theory Spec2Isabelle
  imports Main "HOL-Library.Sublist" "HOL-Library.AList" "HOL-Library.Multiset"
begin

section \<open>JavaScript strings: \<open>split\<close> and \<open>join\<close>\<close>

text \<open>
  A JavaScript string is a sequence of code units; \<^typ>\<open>string\<close> stands for it, one
  \<^typ>\<open>char\<close> per code unit. \<open>String.prototype.split\<close> with a string separator cuts the
  receiver at the leftmost, non-overlapping occurrences of the separator; with the empty
  separator it cuts between all code units (and the empty receiver gives no piece at all).
  \<open>Array.prototype.join\<close> concatenates the pieces with the separator between them.
  Both obfuscation loops of \<open>req-obfuscator.js\<close> are
  \<^verbatim>\<open>result = result.split(key).join(value)\<close>.
\<close>

function split_scan :: "string \<Rightarrow> string \<Rightarrow> string \<Rightarrow> string list" where
  "split_scan sep cur [] = [cur]"
| "split_scan sep cur (c # cs) =
     (if sep \<noteq> [] \<and> prefix sep (c # cs)
      then cur # split_scan sep [] (drop (length sep) (c # cs))
      else split_scan sep (cur @ [c]) cs)"
  by pat_completeness auto
termination
  by (relation "measure (\<lambda>(sep, cur, s). length s)") (auto simp: prefix_def)

definition split :: "string \<Rightarrow> string \<Rightarrow> string list" where
  "split s sep = (if sep = [] then map (\<lambda>c. [c]) s else split_scan sep [] s)"

fun join :: "string list \<Rightarrow> string \<Rightarrow> string" where
  "join [] sep = []"
| "join [x] sep = x"
| "join (x # y # ys) sep = x @ sep @ join (y # ys) sep"

section \<open>JavaScript objects as ordered entry lists\<close>

text \<open>
  An object is modelled by what \<open>Object.entries\<close> returns for it: its own enumerable
  string-keyed properties in property order. That order puts the array-index keys first
  (canonical decimal numerals below \<open>2^32 - 1\<close>), ascending, and then every other key in
  the order of creation. An assignment \<^verbatim>\<open>obj[k] = v\<close> to an ordinary object
  \<^item> overwrites the value in place when \<open>k\<close> is already an own key,
  \<^item> creates the property otherwise (at its place among the array indices, or last),
  \<^item> and creates nothing when \<open>k\<close> is \<^verbatim>\<open>__proto__\<close>: that name reaches the accessor
    inherited from \<open>Object.prototype\<close>, which changes the prototype (for an object or
    null value) or does nothing, and never adds an own property.
\<close>

type_synonym 'v js_object = "(string \<times> 'v) list"

definition is_digit :: "char \<Rightarrow> bool" where
  "is_digit c = (48 \<le> (of_char c :: int) \<and> (of_char c :: int) \<le> 57)"

definition num_val :: "string \<Rightarrow> int" where
  "num_val k = foldl (\<lambda>n c. 10 * n + ((of_char c :: int) - 48)) 0 k"

definition is_array_index :: "string \<Rightarrow> bool" where
  "is_array_index k =
     (k \<noteq> [] \<and> list_all is_digit k \<and> (if hd k = CHR ''0'' then k = ''0'' else True) \<and>
      num_val k < 4294967295)"

fun insert_index :: "string \<Rightarrow> 'v \<Rightarrow> 'v js_object \<Rightarrow> 'v js_object" where
  "insert_index k v [] = [(k, v)]"
| "insert_index k v ((k', v') # rest) =
     (if is_array_index k' \<and> num_val k' < num_val k
      then (k', v') # insert_index k v rest
      else (k, v) # (k', v') # rest)"

definition js_set :: "'v js_object \<Rightarrow> string \<Rightarrow> 'v \<Rightarrow> 'v js_object" where
  "js_set obj k v =
     (if k = ''__proto__'' then obj
      else if is_array_index k \<and> k \<notin> set (map fst obj) then insert_index k v obj
      else AList.update k v obj)"

text \<open>\<open>Object.keys(obj)\<close>.\<close>

definition keys :: "'v js_object \<Rightarrow> string list" where
  "keys obj = map fst obj"

section \<open>The rule compiler: \<open>loadReplacements\<close>\<close>

text \<open>
  The module state of \<open>req-obfuscator.js\<close>: the two dictionaries, each an object from
  strings to strings.
\<close>

record obf_state =
  requestReplacements :: "string js_object"
  responseReplacements :: "string js_object"

text \<open>
  One element of \<open>config.rules\<close>. \<open>active\<close> and \<open>res_obfs\<close> are \<open>None\<close> when the field
  is absent (or holds no boolean: the source tests \<^verbatim>\<open>!== false\<close> and \<^verbatim>\<open>=== true\<close>);
  \<open>rule\<close> is \<open>None\<close> when the field is absent or no object, and otherwise the entries of
  the object, whose values the model takes to be strings. An element of the array that is
  \<open>null\<close> is \<open>None\<close>: reading a field of it throws.
\<close>

record ruleObj =
  active :: "bool option"
  res_obfs :: "bool option"
  rule :: "(string \<times> string) list option"

datatype js_error = TypeError

text \<open>
  What the loader finds on disk: no file, a file that cannot be read or parsed (the
  \<open>catch\<close> branch), or a parsed file whose \<open>rules\<close> field is an array (\<open>Some\<close>) or not.
\<close>

datatype config_file = Missing | Unreadable | Parsed "ruleObj option list option"

text \<open>
  The inner loops:
  \<^verbatim>\<open>for (const [key, value] of Object.entries(ruleObj.rule)) requestReplacements[key] = value\<close>
  and the same with \<^verbatim>\<open>responseReplacements[value] = key\<close>.
\<close>

fun assign_entries :: "string js_object \<Rightarrow> (string \<times> string) list \<Rightarrow> string js_object" where
  "assign_entries d [] = d"
| "assign_entries d ((key, val) # rest) = assign_entries (js_set d key val) rest"

fun assign_reversed :: "string js_object \<Rightarrow> (string \<times> string) list \<Rightarrow> string js_object" where
  "assign_reversed d [] = d"
| "assign_reversed d ((key, val) # rest) = assign_reversed (js_set d val key) rest"

text \<open>\<^verbatim>\<open>ruleObj.active !== false\<close> and \<^verbatim>\<open>ruleObj['res-obfs'] === true\<close>.\<close>

definition is_active :: "ruleObj \<Rightarrow> bool" where
  "is_active r = (active r \<noteq> Some False)"

definition is_res_obfs :: "ruleObj \<Rightarrow> bool" where
  "is_res_obfs r = (res_obfs r = Some True)"

text \<open>
  The two outer loops over \<open>config.rules\<close>. The first runs to its end before the second
  starts; a null element makes the field access throw.
\<close>

fun build_request :: "string js_object \<Rightarrow> ruleObj option list \<Rightarrow> js_error + string js_object" where
  "build_request d [] = Inr d"
| "build_request d (None # rs) = Inl TypeError"
| "build_request d (Some r # rs) =
     (if is_active r then
        (case rule r of
           Some entries \<Rightarrow> build_request (assign_entries d entries) rs
         | None \<Rightarrow> build_request d rs)
      else build_request d rs)"

fun build_response :: "string js_object \<Rightarrow> ruleObj option list \<Rightarrow> js_error + string js_object" where
  "build_response d [] = Inr d"
| "build_response d (None # rs) = Inl TypeError"
| "build_response d (Some r # rs) =
     (if is_active r \<and> is_res_obfs r then
        (case rule r of
           Some entries \<Rightarrow> build_response (assign_reversed d entries) rs
         | None \<Rightarrow> build_response d rs)
      else build_response d rs)"

text \<open>
  \<open>loadReplacements\<close>: every path that returns early, and the \<open>catch\<close> branch, leave both
  dictionaries empty.
\<close>

definition disabled :: obf_state where
  "disabled = \<lparr>requestReplacements = [], responseReplacements = []\<rparr>"

definition loadReplacements :: "config_file \<Rightarrow> obf_state" where
  "loadReplacements file =
     (case file of
        Missing \<Rightarrow> disabled
      | Unreadable \<Rightarrow> disabled
      | Parsed None \<Rightarrow> disabled
      | Parsed (Some rules) \<Rightarrow>
          (case build_request [] rules of
             Inl e \<Rightarrow> disabled
           | Inr req \<Rightarrow>
               (case build_response [] rules of
                  Inl e \<Rightarrow> disabled
                | Inr res \<Rightarrow> \<lparr>requestReplacements = req, responseReplacements = res\<rparr>)))"

section \<open>The substitution engine\<close>

text \<open>
  The loop shared by \<open>obfuscateString\<close> and \<open>deobfuscateString\<close>, over the entries of the
  dictionary in property order. Both functions return an empty string as it is
  (\<^verbatim>\<open>!str\<close>); they are only called on strings.
\<close>

fun apply_entries :: "string js_object \<Rightarrow> string \<Rightarrow> string" where
  "apply_entries [] result = result"
| "apply_entries ((key, val) # rest) result = apply_entries rest (join (split result key) val)"

definition obfuscateString :: "obf_state \<Rightarrow> string \<Rightarrow> string" where
  "obfuscateString st str = (if str = [] then str else apply_entries (requestReplacements st) str)"

definition deobfuscateString :: "obf_state \<Rightarrow> string \<Rightarrow> string" where
  "deobfuscateString st str = (if str = [] then str else apply_entries (responseReplacements st) str)"

text \<open>
  A value tree. Numbers are never inspected by the engine, so an integer stands for them.
\<close>

datatype json =
    JNull
  | JUndefined
  | JBool bool
  | JNumber int
  | JString string
  | JArray "json list"
  | JObject "(string \<times> json) list"

text \<open>
  \<open>processObject\<close>: null and undefined come back, a string goes through \<open>transformFn\<close>, an
  array is mapped, an object is rebuilt entry by entry into a fresh object
  (\<open>processEntries\<close> is that loop, with \<open>result\<close> as its accumulator), anything else comes
  back.
\<close>

fun processObject :: "(string \<Rightarrow> string) \<Rightarrow> json \<Rightarrow> json"
  and processEntries :: "(string \<Rightarrow> string) \<Rightarrow> (string \<times> json) list \<Rightarrow> json js_object \<Rightarrow> json js_object"
where
  "processObject transformFn JNull = JNull"
| "processObject transformFn JUndefined = JUndefined"
| "processObject transformFn (JString s) = JString (transformFn s)"
| "processObject transformFn (JArray items) = JArray (map (processObject transformFn) items)"
| "processObject transformFn (JObject entries) = JObject (processEntries transformFn entries [])"
| "processObject transformFn (JBool b) = JBool b"
| "processObject transformFn (JNumber n) = JNumber n"
| "processEntries transformFn [] result = result"
| "processEntries transformFn ((key, val) # rest) result =
     processEntries transformFn rest (js_set result key (processObject transformFn val))"

text \<open>Both entry points return the body itself when the dictionary has no keys.\<close>

definition obfuscateRequestBody :: "obf_state \<Rightarrow> json \<Rightarrow> json" where
  "obfuscateRequestBody st body =
     (if length (keys (requestReplacements st)) = 0 then body
      else processObject (obfuscateString st) body)"

definition deobfuscateResponseBody :: "obf_state \<Rightarrow> json \<Rightarrow> json" where
  "deobfuscateResponseBody st body =
     (if length (keys (responseReplacements st)) = 0 then body
      else processObject (deobfuscateString st) body)"

section \<open>The streaming rewriter\<close>

text \<open>
  \<open>DeobfuscateTransform\<close>: the object holds a \<open>buffer\<close> field, set to the empty string by
  the constructor. Decoding a chunk (\<open>chunk.toString()\<close>) and encoding the result
  (\<open>Buffer.from\<close>) belong to the runtime and are parameters here. The async generator
  \<open>transformStream\<close> yields one transformed chunk per chunk it reads; a list stands for
  the sequence of chunks.
\<close>

record deobfuscate_transform =
  buffer :: string

definition new_DeobfuscateTransform :: deobfuscate_transform where
  "new_DeobfuscateTransform = \<lparr>buffer = []\<rparr>"

definition transform ::
  "('b \<Rightarrow> string) \<Rightarrow> (string \<Rightarrow> 'b) \<Rightarrow> obf_state \<Rightarrow> deobfuscate_transform \<Rightarrow> 'b \<Rightarrow>
   'b \<times> deobfuscate_transform" where
  "transform toString Buffer_from st this chunk =
     (if length (keys (responseReplacements st)) = 0 then (chunk, this)
      else (let chunkStr = toString chunk;
                deobfuscated = deobfuscateString st chunkStr
            in (Buffer_from deobfuscated, this)))"

fun transformStream ::
  "('b \<Rightarrow> string) \<Rightarrow> (string \<Rightarrow> 'b) \<Rightarrow> obf_state \<Rightarrow> deobfuscate_transform \<Rightarrow> 'b list \<Rightarrow>
   'b list \<times> deobfuscate_transform" where
  "transformStream toString Buffer_from st this [] = ([], this)"
| "transformStream toString Buffer_from st this (chunk # stream) =
     (case transform toString Buffer_from st this chunk of
        (out, this') \<Rightarrow>
          (case transformStream toString Buffer_from st this' stream of
             (outs, this'') \<Rightarrow> (out # outs, this'')))"

section \<open>The engine gated by \<open>res-obfuscation\<close>\<close>

text \<open>
  The second engine of \<open>req-obfuscator.js\<close> reads a flat object of replacements and a
  control file \<open>req.json\<close>, whose boolean field \<open>res-obfuscation\<close> gates every inbound
  rewrite. Its \<open>obfuscateString\<close>, \<open>deobfuscateString\<close> and \<open>processObject\<close> are those of
  the first engine over its own two dictionaries.
\<close>

record control_config =
  res_obfuscation :: bool

record gated_state =
  replacements :: "string js_object"
  reverseReplacements :: "string js_object"
  config :: control_config

text \<open>
  \<open>loadConfig\<close>: without a file, and in the \<open>catch\<close> branch, the flag is false. A parsed
  file keeps the flag only when its field \<open>res-obfuscation\<close> is a boolean; otherwise the
  flag is set to false (on an object or array), or the attempt throws and the \<open>catch\<close>
  branch sets it (on null and on a number, string or boolean).
\<close>

datatype control_file = NoControlFile | UnreadableControlFile | ControlFile json

definition loadConfig :: "control_file \<Rightarrow> control_config" where
  "loadConfig file =
     (case file of
        NoControlFile \<Rightarrow> \<lparr>res_obfuscation = False\<rparr>
      | UnreadableControlFile \<Rightarrow> \<lparr>res_obfuscation = False\<rparr>
      | ControlFile parsed \<Rightarrow>
          (case parsed of
             JObject entries \<Rightarrow>
               (case map_of entries ''res-obfuscation'' of
                  Some (JBool b) \<Rightarrow> \<lparr>res_obfuscation = b\<rparr>
                | _ \<Rightarrow> \<lparr>res_obfuscation = False\<rparr>)
           | _ \<Rightarrow> \<lparr>res_obfuscation = False\<rparr>))"

text \<open>
  \<open>loadReplacements\<close> of this engine keeps the parsed object as the forward dictionary
  and assigns each value as a key of the reverse dictionary.
\<close>

datatype replace_file = NoReplaceFile | UnreadableReplaceFile | ReplaceFile "(string \<times> string) list"

definition loadReplacements_flat :: "replace_file \<Rightarrow> string js_object \<times> string js_object" where
  "loadReplacements_flat file =
     (case file of
        NoReplaceFile \<Rightarrow> ([], [])
      | UnreadableReplaceFile \<Rightarrow> ([], [])
      | ReplaceFile entries \<Rightarrow> (entries, assign_reversed [] entries))"

definition load_gated :: "control_file \<Rightarrow> replace_file \<Rightarrow> gated_state" where
  "load_gated cfile rfile =
     (case loadReplacements_flat rfile of
        (fwd, bwd) \<Rightarrow> \<lparr>replacements = fwd, reverseReplacements = bwd, config = loadConfig cfile\<rparr>)"

definition obfuscateString_gated :: "gated_state \<Rightarrow> string \<Rightarrow> string" where
  "obfuscateString_gated st str = (if str = [] then str else apply_entries (replacements st) str)"

definition deobfuscateString_gated :: "gated_state \<Rightarrow> string \<Rightarrow> string" where
  "deobfuscateString_gated st str =
     (if str = [] then str else apply_entries (reverseReplacements st) str)"

definition obfuscateRequestBody_gated :: "gated_state \<Rightarrow> json \<Rightarrow> json" where
  "obfuscateRequestBody_gated st body =
     (if length (keys (replacements st)) = 0 then body
      else processObject (obfuscateString_gated st) body)"

definition deobfuscateResponseBody_gated :: "gated_state \<Rightarrow> json \<Rightarrow> json" where
  "deobfuscateResponseBody_gated st body =
     (if \<not> res_obfuscation (config st) then body
      else if length (keys (reverseReplacements st)) = 0 then body
      else processObject (deobfuscateString_gated st) body)"

definition transform_gated ::
  "('b \<Rightarrow> string) \<Rightarrow> (string \<Rightarrow> 'b) \<Rightarrow> gated_state \<Rightarrow> deobfuscate_transform \<Rightarrow> 'b \<Rightarrow>
   'b \<times> deobfuscate_transform" where
  "transform_gated toString Buffer_from st this chunk =
     (if \<not> res_obfuscation (config st) then (chunk, this)
      else if length (keys (reverseReplacements st)) = 0 then (chunk, this)
      else (let chunkStr = toString chunk;
                deobfuscated = deobfuscateString_gated st chunkStr
            in (Buffer_from deobfuscated, this)))"

fun transformStream_gated ::
  "('b \<Rightarrow> string) \<Rightarrow> (string \<Rightarrow> 'b) \<Rightarrow> gated_state \<Rightarrow> deobfuscate_transform \<Rightarrow> 'b list \<Rightarrow>
   'b list \<times> deobfuscate_transform" where
  "transformStream_gated toString Buffer_from st this [] = ([], this)"
| "transformStream_gated toString Buffer_from st this (chunk # stream) =
     (case transform_gated toString Buffer_from st this chunk of
        (out, this') \<Rightarrow>
          (case transformStream_gated toString Buffer_from st this' stream of
             (outs, this'') \<Rightarrow> (out # outs, this'')))"

section \<open>The proxy pool router: \<open>getNextProxyAgent\<close>\<close>

text \<open>
  A pool entry as the router reads it: \<open>url\<close> is \<open>None\<close> when the field is absent or no
  string, \<open>name\<close> likewise. The record is extensible (\<open>'z proxy_scheme\<close>): an entry may
  hold anything else besides, which the router does not read but the snapshot may show.
  An entry of the array that is \<open>null\<close> (or otherwise falsy) is \<open>None\<close>. The pool handed over
  by \<open>getProxyConfigs\<close> is \<open>None\<close> when it is no array.
\<close>

record proxy =
  url :: "string option"
  name :: "string option"

text \<open>The module state of \<open>proxy-manager.js\<close>.\<close>

record router_state =
  proxyIndex :: nat
  lastSnapshot :: string

definition initial_router :: router_state where
  "initial_router = \<lparr>proxyIndex = 0, lastSnapshot = []\<rparr>"

text \<open>
  What the router writes to the log, one constructor per call of the logger in the
  source: the snapshot could not be taken (\<open>logDebug\<close> in \<open>snapshotConfigs\<close>), the
  configuration changed, the entry at an index has no usable URL, the agent for a URL
  could not be created, a proxy (by its label) is used for a target, and all proxies
  failed.
\<close>

datatype log_event =
    SnapshotFailed
  | ConfigChanged
  | InvalidEntry nat
  | AgentFailed string
  | UsingProxy string string
  | AllFailed

text \<open>
  \<open>String.prototype.trim\<close> strips white space and line terminators from both ends; among
  the code units below 256 these are 9 to 13, 32 and 160.
\<close>

definition is_space :: "char \<Rightarrow> bool" where
  "is_space c = ((of_char c :: int) \<in> set [9, 10, 11, 12, 13, 32, 160])"

definition trim :: "string \<Rightarrow> string" where
  "trim s = rev (dropWhile is_space (rev (dropWhile is_space s)))"

text \<open>
  \<open>JSON.stringify\<close> is a parameter: \<open>None\<close> when it throws, which \<open>snapshotConfigs\<close>
  catches.
\<close>

definition snapshotConfigs ::
  "('z proxy_scheme option list \<Rightarrow> string option) \<Rightarrow> 'z proxy_scheme option list \<Rightarrow>
   string \<times> log_event list" where
  "snapshotConfigs stringify configs =
     (case stringify configs of
        Some s \<Rightarrow> (s, [])
      | None \<Rightarrow> ([], [SnapshotFailed]))"

definition logged ::
  "log_event \<Rightarrow> 'r \<times> nat \<times> log_event list \<Rightarrow> 'r \<times> nat \<times> log_event list" where
  "logged e r = (case r of (res, idx, lg) \<Rightarrow> (res, idx, e # lg))"

text \<open>\<^verbatim>\<open>proxy.name || proxy.url\<close>.\<close>

definition label_of :: "'z proxy_scheme \<Rightarrow> string \<Rightarrow> string" where
  "label_of p u = (case name p of None \<Rightarrow> u | Some n \<Rightarrow> if n = [] then u else n)"

text \<open>
  The \<open>for\<close> loop over \<open>attempt\<close>. The constructor \<open>new HttpsProxyAgent(url)\<close> is the
  parameter \<open>mkAgent\<close>, \<open>None\<close> when it throws. The loop returns the result, the value of
  \<open>proxyIndex\<close> it leaves and its log.
\<close>

function attempt_loop ::
  "(string \<Rightarrow> 'a option) \<Rightarrow> string \<Rightarrow> 'z proxy_scheme option list \<Rightarrow> nat \<Rightarrow> nat \<Rightarrow>
   ('a \<times> 'z proxy_scheme) option \<times> nat \<times> log_event list" where
  "attempt_loop mkAgent targetUrl proxies pIndex attempt =
     (if attempt < length proxies then
        (let index = (pIndex + attempt) mod length proxies in
         case proxies ! index of
           None \<Rightarrow>
             logged (InvalidEntry index) (attempt_loop mkAgent targetUrl proxies pIndex (attempt + 1))
         | Some p \<Rightarrow>
             (case url p of
                None \<Rightarrow>
                  logged (InvalidEntry index)
                    (attempt_loop mkAgent targetUrl proxies pIndex (attempt + 1))
              | Some u \<Rightarrow>
                  if trim u = [] then
                    logged (InvalidEntry index)
                      (attempt_loop mkAgent targetUrl proxies pIndex (attempt + 1))
                  else
                    (case mkAgent u of
                       Some agent \<Rightarrow>
                         (Some (agent, p), (index + 1) mod length proxies,
                          [UsingProxy (label_of p u) targetUrl])
                     | None \<Rightarrow>
                         logged (AgentFailed u)
                           (attempt_loop mkAgent targetUrl proxies pIndex (attempt + 1)))))
      else (None, pIndex, [AllFailed]))"
  by pat_completeness auto
termination
  by (relation "measure (\<lambda>(mkAgent, targetUrl, proxies, pIndex, attempt). length proxies - attempt)")
     auto

text \<open>
  \<open>getNextProxyAgent\<close>: the pool comes from \<open>getProxyConfigs()\<close> at every call. The
  function returns null (\<open>None\<close>) or the agent with its entry, and leaves a new module
  state and its log lines.
\<close>

definition getNextProxyAgent ::
  "('z proxy_scheme option list \<Rightarrow> string option) \<Rightarrow> (string \<Rightarrow> 'a option) \<Rightarrow>
   'z proxy_scheme option list option \<Rightarrow> string \<Rightarrow> router_state \<Rightarrow>
   ('a \<times> 'z proxy_scheme) option \<times> router_state \<times> log_event list" where
  "getNextProxyAgent stringify mkAgent getProxyConfigs targetUrl st =
     (case getProxyConfigs of
        None \<Rightarrow> (None, st, [])
      | Some proxies \<Rightarrow>
          if length proxies = 0 then (None, st, [])
          else
            (case snapshotConfigs stringify proxies of
               (currentSnapshot, lg1) \<Rightarrow>
                 (let changed = (currentSnapshot \<noteq> lastSnapshot st);
                      st1 = (if changed then \<lparr>proxyIndex = 0, lastSnapshot = currentSnapshot\<rparr>
                             else st);
                      lg2 = (if changed then [ConfigChanged] else [])
                  in case attempt_loop mkAgent targetUrl proxies (proxyIndex st1) 0 of
                       (res, idx, lg3) \<Rightarrow> (res, st1\<lparr>proxyIndex := idx\<rparr>, lg1 @ lg2 @ lg3))))"

section \<open>Sample configurations\<close>

text \<open>The single rule \<open>x \<rightarrow> y\<close>, with the default flags.\<close>

definition rule_x_y :: config_file where
  "rule_x_y = Parsed (Some [Some \<lparr>active = None, res_obfs = None, rule = Some [(''x'', ''y'')]\<rparr>])"

text \<open>The two rules \<open>x \<rightarrow> y\<close> and \<open>y \<rightarrow> z\<close>, in that order, both with \<open>res-obfs\<close> set.\<close>

definition chain_rules :: config_file where
  "chain_rules = Parsed (Some
     [Some \<lparr>active = None, res_obfs = Some True, rule = Some [(''x'', ''y'')]\<rparr>,
      Some \<lparr>active = None, res_obfs = Some True, rule = Some [(''y'', ''z'')]\<rparr>])"

text \<open>One reversible rule whose replacement is \<open>secret\<close>.\<close>

definition secret_rule :: config_file where
  "secret_rule = Parsed (Some
     [Some \<lparr>active = None, res_obfs = Some True, rule = Some [(''hidden'', ''secret'')]\<rparr>])"

text \<open>The gated engine with one replacement loaded and no control file.\<close>

definition gated_sample :: gated_state where
  "gated_sample = load_gated NoControlFile (ReplaceFile [(''a'', ''b'')])"

section \<open>Vocabulary of the router claims\<close>

text \<open>
  The test that makes the loop skip an entry:
  \<^verbatim>\<open>!proxy || typeof proxy.url !== 'string' || proxy.url.trim() === ''\<close>.
\<close>

definition invalid_entry :: "'z proxy_scheme option \<Rightarrow> bool" where
  "invalid_entry e =
     (case e of None \<Rightarrow> True
      | Some p \<Rightarrow> (case url p of None \<Rightarrow> True | Some u \<Rightarrow> trim u = []))"

text \<open>An entry fails when it is skipped or when the constructor throws on its URL.\<close>

definition entry_fails :: "(string \<Rightarrow> 'a option) \<Rightarrow> 'z proxy_scheme option \<Rightarrow> bool" where
  "entry_fails mkAgent e =
     (case e of None \<Rightarrow> True
      | Some p \<Rightarrow> (case url p of None \<Rightarrow> True
                  | Some u \<Rightarrow> if trim u = [] then True else mkAgent u = None))"

text \<open>
  Every candidate the loop tries leaves one line in the log: the entry was invalid, its
  agent could not be built, or it is used. \<open>tried\<close> keeps these lines.
\<close>

fun is_candidate :: "log_event \<Rightarrow> bool" where
  "is_candidate (InvalidEntry i) = True"
| "is_candidate (AgentFailed u) = True"
| "is_candidate (UsingProxy l t) = True"
| "is_candidate e = False"

definition tried :: "log_event list \<Rightarrow> log_event list" where
  "tried lg = filter is_candidate lg"

text \<open>A sequence of calls, each with the pool the configuration hands over at that time.\<close>

fun run_calls ::
  "('z proxy_scheme option list \<Rightarrow> string option) \<Rightarrow> (string \<Rightarrow> 'a option) \<Rightarrow> router_state \<Rightarrow>
   ('z proxy_scheme option list option \<times> string) list \<Rightarrow> router_state" where
  "run_calls stringify mkAgent st [] = st"
| "run_calls stringify mkAgent st ((pool, targetUrl) # calls) =
     run_calls stringify mkAgent
       (fst (snd (getNextProxyAgent stringify mkAgent pool targetUrl st))) calls"

text \<open>
  The last-seen pool as the specification words it: the pool that the call before was
  given, whatever it held (the first call is the head of the list; a call without a
  pool counts as a call with the empty pool). Before the first call there is none.
\<close>

definition last_seen_pool ::
  "('z proxy_scheme option list option \<times> string) list \<Rightarrow> 'z proxy_scheme option list option" where
  "last_seen_pool calls =
     (if calls = [] then None
      else Some (case fst (last calls) of None \<Rightarrow> [] | Some p \<Rightarrow> p))"

text \<open>
  The pool whose snapshot the module state holds after the calls made: the last pool
  with entries among them. \<open>getNextProxyAgent\<close> returns on a missing or empty pool
  before the snapshot is taken, so such a call records nothing. It differs from
  \<open>last_seen_pool\<close> exactly when the call before had no pool or an empty one.
\<close>

fun last_recorded_pool ::
  "('z proxy_scheme option list option \<times> string) list \<Rightarrow> 'z proxy_scheme option list option" where
  "last_recorded_pool [] = None"
| "last_recorded_pool ((pool, targetUrl) # calls) =
     (case last_recorded_pool calls of
        Some q \<Rightarrow> Some q
      | None \<Rightarrow> (case pool of None \<Rightarrow> None | Some p \<Rightarrow> if p = [] then None else Some p))"

text \<open>The index at which a call with a pool that has entries starts its loop.\<close>

definition start_index ::
  "('z proxy_scheme option list \<Rightarrow> string option) \<Rightarrow> 'z proxy_scheme option list \<Rightarrow>
   router_state \<Rightarrow> nat" where
  "start_index S proxies st =
     (if fst (snapshotConfigs S proxies) \<noteq> lastSnapshot st then 0 else proxyIndex st)"

text \<open>
  What the cursor invariant needs of the serialiser: pools with the same snapshot have
  the same length. \<open>JSON.stringify\<close> has this property on arrays it can serialise (the
  text lists one element per entry).
\<close>

definition fingerprint_gives_length ::
  "('z proxy_scheme option list \<Rightarrow> string option) \<Rightarrow> bool" where
  "fingerprint_gives_length stringify =
     (\<forall>p q. fst (snapshotConfigs stringify p) = fst (snapshotConfigs stringify q)
        \<longrightarrow> length p = length q)"

text \<open>The invariant of the module state: the cursor fits every pool with the recorded snapshot.\<close>

definition cursor_ok ::
  "('z proxy_scheme option list \<Rightarrow> string option) \<Rightarrow> router_state \<Rightarrow> bool" where
  "cursor_ok stringify st =
     (\<forall>pool. pool \<noteq> [] \<and> fst (snapshotConfigs stringify pool) = lastSnapshot st
        \<longrightarrow> proxyIndex st < length pool)"

text \<open>
  Sample pools. \<open>sample_stringify\<close> stands in for the serialiser with one character per
  entry, which tells the sample pools apart; \<open>sample_agent\<close> stands in for the
  constructor and throws on URLs that start with \<open>bad\<close>.
\<close>

definition sample_stringify :: "proxy option list \<Rightarrow> string option" where
  "sample_stringify pool =
     Some (map (\<lambda>e. case e of None \<Rightarrow> CHR ''0''
                     | Some p \<Rightarrow> (case url p of None \<Rightarrow> CHR ''-''
                                 | Some u \<Rightarrow> (case u of [] \<Rightarrow> CHR ''_'' | c # cs \<Rightarrow> c))) pool)"

definition sample_agent :: "string \<Rightarrow> string option" where
  "sample_agent u = (if prefix ''bad'' u then None else Some (''agent:'' @ u))"

definition proxy_A :: proxy where
  "proxy_A = \<lparr>url = Some ''a.example:8080'', name = Some ''A''\<rparr>"

definition proxy_B :: proxy where
  "proxy_B = \<lparr>url = Some ''b.example:8080'', name = None\<rparr>"

definition proxy_C :: proxy where
  "proxy_C = \<lparr>url = Some ''c.example:8080'', name = Some []\<rparr>"

definition proxy_blank :: proxy where
  "proxy_blank = \<lparr>url = Some ''  '', name = Some ''blank''\<rparr>"

definition proxy_bad :: proxy where
  "proxy_bad = \<lparr>url = Some ''bad.example:1'', name = None\<rparr>"

definition failover_pool :: "proxy option list" where
  "failover_pool = [Some proxy_blank, Some proxy_B]"

definition dead_pool :: "proxy option list" where
  "dead_pool = [None, Some proxy_blank, Some proxy_bad]"

definition first_calls :: "(proxy option list option \<times> string) list" where
  "first_calls = [(Some [Some proxy_A, Some proxy_B], ''api/1'')]"

text \<open>A call with the pool \<open>[A, B]\<close>, then a call while the configured pool is empty.\<close>

definition interrupted_calls :: "(proxy option list option \<times> string) list" where
  "interrupted_calls = [(Some [Some proxy_A, Some proxy_B], ''api/1''), (Some [], ''api/2'')]"

section \<open>Vocabulary of the engine claims\<close>

text \<open>
  The entries that the two loops of \<open>loadReplacements\<close> assign, in order, for a rule list
  without null elements: those of the active rules (forward), and those of the active
  rules with \<open>res-obfs\<close>, value first (reverse).
\<close>

definition rule_entries :: "ruleObj \<Rightarrow> (string \<times> string) list" where
  "rule_entries r = (case rule r of Some entries \<Rightarrow> entries | None \<Rightarrow> [])"

definition forward_entries :: "ruleObj list \<Rightarrow> (string \<times> string) list" where
  "forward_entries rules = concat (map rule_entries (filter is_active rules))"

definition swap_entry :: "string \<times> string \<Rightarrow> string \<times> string" where
  "swap_entry e = (snd e, fst e)"

definition reverse_entries :: "ruleObj list \<Rightarrow> (string \<times> string) list" where
  "reverse_entries rules =
     map swap_entry (concat (map rule_entries (filter (\<lambda>r. is_active r \<and> is_res_obfs r) rules)))"

text \<open>An assignment to the key \<open>__proto__\<close> stores nothing.\<close>

definition storable :: "string \<times> 'v \<Rightarrow> bool" where
  "storable e = (fst e \<noteq> ''__proto__'')"

text \<open>
  \<^verbatim>\<open>t.split(key).join(val)\<close> in one pass, for a key that is not empty: the text is read
  from the left, and each occurrence of the key found is replaced and stepped over.
\<close>

function replace_all :: "string \<Rightarrow> string \<Rightarrow> string \<Rightarrow> string" where
  "replace_all key val [] = []"
| "replace_all key val (c # cs) =
     (if key \<noteq> [] \<and> prefix key (c # cs)
      then val @ replace_all key val (drop (length key) (c # cs))
      else c # replace_all key val cs)"
  by pat_completeness auto
termination
  by (relation "measure (\<lambda>(key, val, s). length s)") (auto simp: prefix_def)

text \<open>One round of the loop of \<open>obfuscateString\<close> and \<open>deobfuscateString\<close>.\<close>

definition replace_entry :: "string \<times> string \<Rightarrow> string \<Rightarrow> string" where
  "replace_entry e t = join (split t (fst e)) (snd e)"

section \<open>Vocabulary of the round trip\<close>

text \<open>The string values of a tree (the keys of its objects are not among them).\<close>

fun strings_of :: "json \<Rightarrow> string list" where
  "strings_of (JString s) = [s]"
| "strings_of (JArray items) = concat (map strings_of items)"
| "strings_of (JObject entries) = concat (map (\<lambda>e. strings_of (snd e)) entries)"
| "strings_of JNull = []"
| "strings_of JUndefined = []"
| "strings_of (JBool b) = []"
| "strings_of (JNumber n) = []"

text \<open>
  \<open>rebuild\<close> writes the entries of an object, one by one, into a fresh object, as the
  loop of \<open>processObject\<close> does. An entry list that \<open>rebuild\<close> gives back unchanged is one
  that \<open>Object.entries\<close> can return for an object without an own key \<open>__proto__\<close>: its
  keys are different, the array indices come first in ascending order, and no key is
  \<open>__proto__\<close>. \<open>plain_objects\<close> asks this of every object in a tree.
\<close>

definition rebuild :: "'v js_object \<Rightarrow> 'v js_object" where
  "rebuild entries = fold (\<lambda>e obj. js_set obj (fst e) (snd e)) entries []"

fun plain_objects :: "json \<Rightarrow> bool" where
  "plain_objects (JArray items) = list_all plain_objects items"
| "plain_objects (JObject entries) =
     (rebuild entries = entries \<and> list_all (\<lambda>e. plain_objects (snd e)) entries)"
| "plain_objects (JString s) = True"
| "plain_objects JNull = True"
| "plain_objects JUndefined = True"
| "plain_objects (JBool b) = True"
| "plain_objects (JNumber n) = True"

text \<open>
  The conditions under which the round trip is proved. \<open>separated_rules\<close>: patterns and
  replacements are not empty and not \<open>__proto__\<close>, the patterns are pairwise different,
  and the replacement of an entry shares no character with the replacement or the
  pattern of another entry; it may share characters with its own pattern.
  \<open>first_chars_absent\<close>: the first character of a replacement occurs in no string of the
  tree; the other characters of a replacement may occur there.
  \<open>all_reversible\<close>: every active rule has \<open>res-obfs\<close> set.
\<close>

definition no_shared_chars :: "string \<Rightarrow> string \<Rightarrow> bool" where
  "no_shared_chars a b = list_all (\<lambda>c. c \<notin> set b) a"

fun replacements_apart :: "(string \<times> string) list \<Rightarrow> bool" where
  "replacements_apart [] = True"
| "replacements_apart (e # es) =
     (list_all (\<lambda>e'. no_shared_chars (snd e) (snd e')) es \<and> replacements_apart es)"

definition separated_rules :: "(string \<times> string) list \<Rightarrow> bool" where
  "separated_rules es =
     (list_all (\<lambda>e. fst e \<noteq> [] \<and> snd e \<noteq> [] \<and> storable e \<and> storable (swap_entry e)) es \<and>
      distinct (map fst es) \<and>
      replacements_apart es \<and>
      list_all (\<lambda>e. list_all (\<lambda>e'. e' = e \<or> no_shared_chars (snd e) (fst e')) es) es)"

definition first_chars_absent :: "(string \<times> string) list \<Rightarrow> json \<Rightarrow> bool" where
  "first_chars_absent es x =
     list_all (\<lambda>s. list_all (\<lambda>e. hd (snd e) \<notin> set s) es) (strings_of x)"

definition all_reversible :: "ruleObj list \<Rightarrow> bool" where
  "all_reversible rules = list_all is_res_obfs (filter is_active rules)"

text \<open>
  The conditions of the round trip as the specification words them: no pattern is a
  substring of another pattern or of any replacement, and no string of the tree
  contains a replacement.
\<close>

fun is_substring :: "string \<Rightarrow> string \<Rightarrow> bool" where
  "is_substring p [] = (p = [])"
| "is_substring p (c # cs) = (prefix p (c # cs) \<or> is_substring p cs)"

definition claimed_rule_condition :: "(string \<times> string) list \<Rightarrow> bool" where
  "claimed_rule_condition es =
     list_all (\<lambda>e.
        list_all (\<lambda>e'. if fst e' = fst e then True else \<not> is_substring (fst e) (fst e')) es \<and>
        list_all (\<lambda>e'. \<not> is_substring (fst e) (snd e')) es) es"

definition claimed_input_condition :: "(string \<times> string) list \<Rightarrow> json \<Rightarrow> bool" where
  "claimed_input_condition es x =
     list_all (\<lambda>s. list_all (\<lambda>e. \<not> is_substring (snd e) s) es) (strings_of x)"

text \<open>Sample rule lists (none has a null element) and a sample request body.\<close>

definition overlap_rules :: "ruleObj list" where
  "overlap_rules = [\<lparr>active = None, res_obfs = Some True, rule = Some [(''x'', ''aa'')]\<rparr>]"

definition one_way_rules :: "ruleObj list" where
  "one_way_rules = [\<lparr>active = None, res_obfs = None, rule = Some [(''a'', ''b'')]\<rparr>]"

definition joining_rules :: "ruleObj list" where
  "joining_rules =
     [\<lparr>active = None, res_obfs = Some True, rule = Some [(''ab'', ''c''), (''cd'', ''z'')]\<rparr>]"

definition marker_rules :: "ruleObj list" where
  "marker_rules =
     [\<lparr>active = None, res_obfs = Some True,
        rule = Some [(''secret'', ''#1''), (''internal'', ''%2'')]\<rparr>,
      \<lparr>active = Some False, res_obfs = None, rule = Some [(''a'', ''b'')]\<rparr>]"

definition marker_body :: json where
  "marker_body =
     JObject [(''0'', JString ''a secret''),
              (''msg'', JArray [JString ''internal secrets'', JNumber 5, JNull,
                                JObject [(''k'', JString ''secretsecret'')]])]"

definition proto_rules :: "ruleObj list" where
  "proto_rules =
     [\<lparr>active = None, res_obfs = Some True, rule = Some [(''__proto__'', ''x'')]\<rparr>]"

definition proto_target_rules :: "ruleObj list" where
  "proto_target_rules =
     [\<lparr>active = None, res_obfs = Some True, rule = Some [(''a'', ''__proto__'')]\<rparr>]"


text \<open>
  More sample rule lists: the first rule of the example configuration of
  \<open>req-replace/README.md\<close> with the request body of its walk-through, a rule whose
  replacement shares a character with the text around the pattern, and two rules of
  which one replacement ends with the other.
\<close>

definition readme_rules :: "ruleObj list" where
  "readme_rules =
     [\<lparr>active = None, res_obfs = Some True, rule = Some [(''secret_key'', ''public_key'')]\<rparr>]"

definition readme_body :: json where
  "readme_body = JObject [(''text'', JString ''This is a secret_key'')]"

definition cat_rules :: "ruleObj list" where
  "cat_rules = [\<lparr>active = Some True, res_obfs = Some True, rule = Some [(''cat'', ''DOG'')]\<rparr>]"

definition cat_body :: json where
  "cat_body = JArray [JString ''my cat is OK'', JBool True]"

definition nested_replacement_rules :: "ruleObj list" where
  "nested_replacement_rules =
     [\<lparr>active = None, res_obfs = Some True, rule = Some [(''a'', ''y''), (''b'', ''xy'')]\<rparr>]"

section \<open>Vocabulary of the tree traversal\<close>

text \<open>
  The traversal as the specification words it: every string, at any depth, is
  rewritten; null, numbers and booleans (and undefined) pass through; an array keeps its
  items in their order and an object keeps its keys in their order.
\<close>

fun rewrite_strings :: "(string \<Rightarrow> string) \<Rightarrow> json \<Rightarrow> json" where
  "rewrite_strings f (JString s) = JString (f s)"
| "rewrite_strings f (JArray items) = JArray (map (rewrite_strings f) items)"
| "rewrite_strings f (JObject entries) =
     JObject (map (\<lambda>e. (fst e, rewrite_strings f (snd e))) entries)"
| "rewrite_strings f JNull = JNull"
| "rewrite_strings f JUndefined = JUndefined"
| "rewrite_strings f (JBool b) = JBool b"
| "rewrite_strings f (JNumber n) = JNumber n"

text \<open>
  The entry lists that \<open>Object.entries\<close> can return for an object without an own key
  \<open>__proto__\<close>, described without reference to the assignment: the keys are pairwise
  different, none is \<open>__proto__\<close>, and a key that is an array index comes directly after
  a smaller array index or first (so the array indices lead, in ascending order).
  \<open>well_listed\<close> asks this of every object in a tree.
\<close>

fun keys_in_property_order :: "string list \<Rightarrow> bool" where
  "keys_in_property_order (k # k' # ks) =
     ((if is_array_index k' then is_array_index k \<and> num_val k < num_val k' else True) \<and>
      keys_in_property_order (k' # ks))"
| "keys_in_property_order ks = True"

definition entries_as_listed :: "(string \<times> 'v) list \<Rightarrow> bool" where
  "entries_as_listed entries =
     (distinct (map fst entries) \<and> ''__proto__'' \<notin> set (map fst entries) \<and>
      keys_in_property_order (map fst entries))"

fun well_listed :: "json \<Rightarrow> bool" where
  "well_listed (JArray items) = list_all well_listed items"
| "well_listed (JObject entries) =
     (entries_as_listed entries \<and> list_all (\<lambda>e. well_listed (snd e)) entries)"
| "well_listed (JString s) = True"
| "well_listed JNull = True"
| "well_listed JUndefined = True"
| "well_listed (JBool b) = True"
| "well_listed (JNumber n) = True"

text \<open>
  Sample bodies: the fixture of the specification, a body with booleans, array index
  keys and an empty array, and a body with an own key \<open>__proto__\<close>, as \<open>JSON.parse\<close>
  builds it from the text \<open>{"__proto__": "x", "k": "x"}\<close>.
\<close>

definition fixture_body :: json where
  "fixture_body =
     JObject [(''a'', JArray [JString ''x'', JObject [(''b'', JString ''x'')]]),
              (''c'', JNull), (''d'', JNumber 5)]"

definition mixed_body :: json where
  "mixed_body =
     JObject [(''0'', JBool True), (''7'', JString ''x''),
              (''z'', JArray [JString ''xax'', JBool False, JNull, JNumber 5,
                              JObject [(''b'', JString ''x''), (''a'', JArray [])]]),
              (''m'', JString ''no match'')]"

definition proto_body :: json where
  "proto_body = JObject [(''__proto__'', JString ''x''), (''k'', JString ''x'')]"
section \<open>The substitution engine on fixtures\<close>

text \<open>
  Claim C2, as the code has it. With the rules \<open>x \<rightarrow> y\<close> and \<open>y \<rightarrow> z\<close> loaded in that
  order, both reversible, obfuscating \<open>{"k":"x"}\<close> gives \<open>{"k":"z"}\<close> (the forward rules
  chain), and de-obfuscating \<open>{"k":"z"}\<close> gives \<open>{"k":"y"}\<close>: the reverse dictionary is
  \<open>y \<rightarrow> x, z \<rightarrow> y\<close>, applied in that same order, so only the last link is undone.
\<close>

theorem C2_chain_as_coded:
  "requestReplacements (loadReplacements chain_rules) = [(''x'', ''y''), (''y'', ''z'')] \<and>
   responseReplacements (loadReplacements chain_rules) = [(''y'', ''x''), (''z'', ''y'')] \<and>
   obfuscateRequestBody (loadReplacements chain_rules) (JObject [(''k'', JString ''x'')]) =
     JObject [(''k'', JString ''z'')] \<and>
   deobfuscateResponseBody (loadReplacements chain_rules) (JObject [(''k'', JString ''z'')]) =
     JObject [(''k'', JString ''y'')]"
  by code_simp

text \<open>
  The fixture of claim C2 as the claim states it does not hold: de-obfuscating
  \<open>{"k":"z"}\<close> does not give \<open>{"k":"x"}\<close> back.
\<close>

theorem C2_chain_counterexample:
  "\<not> (obfuscateRequestBody (loadReplacements chain_rules) (JObject [(''k'', JString ''x'')]) =
        JObject [(''k'', JString ''z'')] \<and>
      deobfuscateResponseBody (loadReplacements chain_rules) (JObject [(''k'', JString ''z'')]) =
        JObject [(''k'', JString ''x'')])"
  by code_simp

section \<open>Short circuits\<close>

text \<open>
  Claim C3. When the forward dictionary is empty, \<open>obfuscateRequestBody\<close> returns its
  argument itself, whatever the argument is; when the reverse dictionary is empty,
  \<open>deobfuscateResponseBody\<close> does. The tree is not rebuilt: the result is the argument
  also where a traversal would change it (an own key \<open>__proto__\<close>).
\<close>

theorem C3_identity_short_circuit:
  "(requestReplacements st = [] \<longrightarrow> obfuscateRequestBody st x = x) \<and>
   (responseReplacements st = [] \<longrightarrow> deobfuscateResponseBody st x = x)"
  by (simp add: obfuscateRequestBody_def deobfuscateResponseBody_def keys_def)

theorem C3_identity_short_circuit_witness:
  "requestReplacements (loadReplacements (Parsed (Some []))) = [] \<and>
   responseReplacements (loadReplacements (Parsed (Some []))) = [] \<and>
   obfuscateRequestBody (loadReplacements (Parsed (Some [])))
     (JObject [(''__proto__'', JString ''p''), (''k'', JString ''x'')]) =
     JObject [(''__proto__'', JString ''p''), (''k'', JString ''x'')] \<and>
   deobfuscateResponseBody (loadReplacements (Parsed (Some [])))
     (JObject [(''__proto__'', JString ''p''), (''k'', JString ''x'')]) =
     JObject [(''__proto__'', JString ''p''), (''k'', JString ''x'')]"
  using C3_identity_short_circuit [of "loadReplacements (Parsed (Some []))"
      "JObject [(''__proto__'', JString ''p''), (''k'', JString ''x'')]"]
  by (simp add: loadReplacements_def disabled_def)

section \<open>The streaming rewriter, chunk by chunk\<close>

lemma transform_this: "snd (transform ts bf st this chunk) = this"
  by (simp add: transform_def Let_def)

lemma transformStream_map:
  "transformStream ts bf st this chunks =
     (map (\<lambda>c. fst (transform ts bf st this c)) chunks, this)"
proof (induction chunks)
  case Nil
  show ?case by simp
next
  case (Cons c cs)
  obtain out where out: "transform ts bf st this c = (out, this)"
    using transform_this [of ts bf st this c] by (cases "transform ts bf st this c") simp
  show ?case by (simp add: out Cons)
qed

text \<open>
  Claim C4. The rewriter transforms each chunk on its own: the stream of outputs is the
  stream of inputs with \<open>transform\<close> applied to each chunk, and the object's buffer is
  never written. So with the reverse pattern \<open>secret\<close> and the two chunks \<open>sec\<close> and
  \<open>ret\<close>, both chunks come out with their text as it was.
\<close>

theorem C4_chunk_boundary:
  assumes "responseReplacements st = [(''secret'', v)]"
    and "toString c1 = ''sec''" and "toString c2 = ''ret''"
  shows "transformStream toString Buffer_from st new_DeobfuscateTransform [c1, c2] =
           ([Buffer_from ''sec'', Buffer_from ''ret''], new_DeobfuscateTransform) \<and>
         transformStream toString Buffer_from st this chunks =
           (map (\<lambda>c. fst (transform toString Buffer_from st this c)) chunks, this)"
  using assms
  by (simp add: transformStream_map transform_def keys_def deobfuscateString_def split_def)

text \<open>
  An instance: the rule \<open>hidden \<rightarrow> secret\<close>, reversible, and chunks that are strings. The
  unsplit chunk \<open>secret\<close> is rewritten; the chunks \<open>sec\<close> and \<open>ret\<close> are not.
\<close>

theorem C4_chunk_boundary_witness:
  "responseReplacements (loadReplacements secret_rule) = [(''secret'', ''hidden'')] \<and>
   transformStream id id (loadReplacements secret_rule) new_DeobfuscateTransform [''sec'', ''ret''] =
     ([''sec'', ''ret''], new_DeobfuscateTransform) \<and>
   transformStream id id (loadReplacements secret_rule) new_DeobfuscateTransform [''secret''] =
     ([''hidden''], new_DeobfuscateTransform)"
proof -
  have rules: "responseReplacements (loadReplacements secret_rule) = [(''secret'', ''hidden'')]"
    by code_simp
  have whole: "transformStream id id (loadReplacements secret_rule) new_DeobfuscateTransform
      [''secret''] = ([''hidden''], new_DeobfuscateTransform)"
    by (simp add: rules transform_def keys_def deobfuscateString_def split_def)
  show ?thesis
    using rules whole
      C4_chunk_boundary [OF rules, of id "''sec''" "''ret''" id]
    by simp
qed

text \<open>
  Claim C10. In the engine gated by \<open>res-obfuscation\<close>, when the flag is false the body
  comes back as it was from \<open>deobfuscateResponseBody\<close>, and every chunk from \<open>transform\<close>
  and from \<open>transformStream\<close>, whatever the reverse dictionary holds.
\<close>

theorem C10_res_obfuscation_gate:
  assumes "\<not> res_obfuscation (config st)"
  shows "deobfuscateResponseBody_gated st body = body \<and>
         transform_gated toString Buffer_from st this chunk = (chunk, this) \<and>
         transformStream_gated toString Buffer_from st this chunks = (chunks, this)"
proof -
  have t: "\<And>c. transform_gated toString Buffer_from st this c = (c, this)"
    using assms by (simp add: transform_gated_def)
  have "transformStream_gated toString Buffer_from st this chunks = (chunks, this)"
    by (induction chunks) (simp_all add: t)
  with t assms show ?thesis by (simp add: deobfuscateResponseBody_gated_def)
qed

theorem C10_res_obfuscation_gate_witness:
  "\<not> res_obfuscation (config gated_sample) \<and>
   reverseReplacements gated_sample = [(''b'', ''a'')] \<and>
   deobfuscateResponseBody_gated gated_sample (JString ''b'') = JString ''b'' \<and>
   transform_gated id id gated_sample new_DeobfuscateTransform ''b'' =
     (''b'', new_DeobfuscateTransform) \<and>
   transformStream_gated id id gated_sample new_DeobfuscateTransform [''b'', ''bb''] =
     ([''b'', ''bb''], new_DeobfuscateTransform)"
proof -
  have off: "\<not> res_obfuscation (config gated_sample)"
    by (simp add: gated_sample_def load_gated_def loadConfig_def loadReplacements_flat_def)
  have rules: "reverseReplacements gated_sample = [(''b'', ''a'')]"
    by (simp add: gated_sample_def load_gated_def loadReplacements_flat_def js_set_def
        is_array_index_def is_digit_def)
  show ?thesis
    using off rules
      C10_res_obfuscation_gate [OF off, of "JString ''b''" id id new_DeobfuscateTransform
        "''b''" "[''b'', ''bb'']"]
    by blast
qed

section \<open>The proxy pool router\<close>

declare attempt_loop.simps [simp del]

lemma logged_simps [simp]:
  "fst (logged e r) = fst r" "fst (snd (logged e r)) = fst (snd r)"
  "snd (snd (logged e r)) = e # snd (snd r)"
  by (simp_all add: logged_def split: prod.splits)

lemma attempt_loop_done:
  "\<not> attempt < length proxies \<Longrightarrow>
   attempt_loop mk t proxies pI attempt = (None, pI, [AllFailed])"
  by (simp add: attempt_loop.simps)

lemma entry_cases:
  obtains (skip) "invalid_entry e"
  | (usable) p u where "e = Some p" "url p = Some u" "trim u \<noteq> []"
proof (cases e)
  case None
  then show ?thesis using skip by (simp add: invalid_entry_def)
next
  case (Some p)
  show ?thesis
  proof (cases "url p")
    case None
    with Some show ?thesis using skip by (simp add: invalid_entry_def)
  next
    case (Some u)
    with \<open>e = Some p\<close> show ?thesis
      using skip [unfolded invalid_entry_def] usable [of p u] by (cases "trim u = []") simp_all
  qed
qed

lemma attempt_loop_skip:
  assumes "attempt < length proxies"
    and "invalid_entry (proxies ! ((pI + attempt) mod length proxies))"
  shows "attempt_loop mk t proxies pI attempt =
           logged (InvalidEntry ((pI + attempt) mod length proxies))
             (attempt_loop mk t proxies pI (Suc attempt))"
proof (cases "proxies ! ((pI + attempt) mod length proxies)")
  case None
  with assms(1) show ?thesis by (subst attempt_loop.simps) (simp add: Let_def)
next
  case (Some p)
  show ?thesis
  proof (cases "url p")
    case None
    with Some assms(1) show ?thesis by (subst attempt_loop.simps) (simp add: Let_def)
  next
    case (Some u)
    with \<open>proxies ! ((pI + attempt) mod length proxies) = Some p\<close> assms
    show ?thesis by (subst attempt_loop.simps) (simp add: Let_def invalid_entry_def)
  qed
qed

lemma attempt_loop_use:
  assumes "attempt < length proxies"
    and "proxies ! ((pI + attempt) mod length proxies) = Some p"
    and "url p = Some u" and "trim u \<noteq> []" and "mk u = Some agent"
  shows "attempt_loop mk t proxies pI attempt =
           (Some (agent, p), ((pI + attempt) mod length proxies + 1) mod length proxies,
            [UsingProxy (label_of p u) t])"
  using assms by (subst attempt_loop.simps) (simp add: Let_def)

lemma attempt_loop_broken:
  assumes "attempt < length proxies"
    and "proxies ! ((pI + attempt) mod length proxies) = Some p"
    and "url p = Some u" and "trim u \<noteq> []" and "mk u = None"
  shows "attempt_loop mk t proxies pI attempt =
           logged (AgentFailed u) (attempt_loop mk t proxies pI (Suc attempt))"
  using assms by (subst attempt_loop.simps) (simp add: Let_def)

text \<open>
  One round of the loop, by what the entry at the index is: skipped, used, or broken
  (the constructor throws).
\<close>

lemma attempt_loop_round:
  assumes "attempt < length proxies"
  obtains
    (skipped) "attempt_loop mk t proxies pI attempt =
        logged (InvalidEntry ((pI + attempt) mod length proxies))
          (attempt_loop mk t proxies pI (Suc attempt))"
      "entry_fails mk (proxies ! ((pI + attempt) mod length proxies))"
  | (broken) u where "attempt_loop mk t proxies pI attempt =
        logged (AgentFailed u) (attempt_loop mk t proxies pI (Suc attempt))"
      "entry_fails mk (proxies ! ((pI + attempt) mod length proxies))"
  | (used) p u agent where "attempt_loop mk t proxies pI attempt =
        (Some (agent, p), ((pI + attempt) mod length proxies + 1) mod length proxies,
         [UsingProxy (label_of p u) t])"
      "proxies ! ((pI + attempt) mod length proxies) = Some p" "url p = Some u"
      "trim u \<noteq> []" "mk u = Some agent"
      "\<not> entry_fails mk (proxies ! ((pI + attempt) mod length proxies))"
proof (cases "proxies ! ((pI + attempt) mod length proxies)" rule: entry_cases)
  case skip
  then have "entry_fails mk (proxies ! ((pI + attempt) mod length proxies))"
    by (simp add: invalid_entry_def entry_fails_def split: option.splits)
  then show ?thesis
    using skipped [OF attempt_loop_skip [OF assms skip]] by simp
next
  case (usable p u)
  show ?thesis
  proof (cases "mk u")
    case None
    with usable have "entry_fails mk (proxies ! ((pI + attempt) mod length proxies))"
      by (simp add: entry_fails_def)
    then show ?thesis
      using broken [OF attempt_loop_broken [where mk = mk, OF assms usable None]] by simp
  next
    case (Some agent)
    with usable have "\<not> entry_fails mk (proxies ! ((pI + attempt) mod length proxies))"
      by (simp add: entry_fails_def)
    then show ?thesis
      using used [OF attempt_loop_use [where mk = mk, OF assms usable Some] usable Some] by simp
  qed
qed

text \<open>The cursor the loop leaves is inside the pool.\<close>

lemma attempt_loop_cursor:
  "pI < length proxies \<Longrightarrow> fst (snd (attempt_loop mk t proxies pI attempt)) < length proxies"
proof (induction "length proxies - attempt" arbitrary: attempt)
  case 0
  then show ?case by (simp add: attempt_loop_done)
next
  case (Suc n)
  then have lt: "attempt < length proxies" by simp
  have IH: "fst (snd (attempt_loop mk t proxies pI (Suc attempt))) < length proxies"
    using Suc by simp
  from lt show ?case
  proof (cases rule: attempt_loop_round [where mk = mk and t = t and pI = pI])
    case skipped
    with IH show ?thesis by simp
  next
    case (broken u)
    with IH show ?thesis by simp
  next
    case (used p u agent)
    from lt have "0 < length proxies" by (cases proxies) auto
    with used show ?thesis by simp
  qed
qed

lemma attempt_loop_tried:
  "length (tried (snd (snd (attempt_loop mk t proxies pI attempt)))) \<le> length proxies - attempt"
proof (induction "length proxies - attempt" arbitrary: attempt)
  case 0
  then show ?case by (simp add: attempt_loop_done tried_def)
next
  case (Suc n)
  then have lt: "attempt < length proxies" by simp
  have IH: "length (tried (snd (snd (attempt_loop mk t proxies pI (Suc attempt)))))
      \<le> length proxies - Suc attempt"
    using Suc by simp
  from lt show ?case
  proof (cases rule: attempt_loop_round [where mk = mk and t = t and pI = pI])
    case skipped
    with IH lt show ?thesis by (simp add: tried_def)
  next
    case (broken u)
    with IH lt show ?thesis by (simp add: tried_def)
  next
    case (used p u agent)
    with lt show ?thesis by (simp add: tried_def)
  qed
qed

lemma attempt_loop_log_nonempty: "snd (snd (attempt_loop mk t proxies pI attempt)) \<noteq> []"
proof (cases "attempt < length proxies")
  case False
  then show ?thesis by (simp add: attempt_loop_done)
next
  case True
  then show ?thesis
    by (cases rule: attempt_loop_round [where mk = mk and t = t and pI = pI]) simp_all
qed

lemma attempt_loop_all_fail:
  "list_all (entry_fails mk) proxies \<Longrightarrow>
   fst (attempt_loop mk t proxies pI attempt) = None \<and>
   fst (snd (attempt_loop mk t proxies pI attempt)) = pI \<and>
   length (tried (snd (snd (attempt_loop mk t proxies pI attempt)))) = length proxies - attempt \<and>
   last (snd (snd (attempt_loop mk t proxies pI attempt))) = AllFailed"
proof (induction "length proxies - attempt" arbitrary: attempt)
  case 0
  then show ?case by (simp add: attempt_loop_done tried_def)
next
  case (Suc n)
  then have lt: "attempt < length proxies" by simp
  have IH: "fst (attempt_loop mk t proxies pI (Suc attempt)) = None \<and>
   fst (snd (attempt_loop mk t proxies pI (Suc attempt))) = pI \<and>
   length (tried (snd (snd (attempt_loop mk t proxies pI (Suc attempt))))) =
     length proxies - Suc attempt \<and>
   last (snd (snd (attempt_loop mk t proxies pI (Suc attempt)))) = AllFailed"
    using Suc by simp
  from lt have "0 < length proxies" by (cases proxies) auto
  then have "(pI + attempt) mod length proxies < length proxies" by simp
  then have fails: "entry_fails mk (proxies ! ((pI + attempt) mod length proxies))"
    using Suc.prems by (simp add: list_all_length)
  note ne = attempt_loop_log_nonempty [of mk t proxies pI "Suc attempt"]
  from lt show ?case
  proof (cases rule: attempt_loop_round [where mk = mk and t = t and pI = pI])
    case skipped
    with IH lt ne show ?thesis by (simp add: tried_def)
  next
    case (broken u)
    with IH lt ne show ?thesis by (simp add: tried_def)
  next
    case (used p u agent)
    with fails show ?thesis by simp
  qed
qed

lemma tried_append [simp]: "tried (xs @ ys) = tried xs @ tried ys"
  by (simp add: tried_def)

lemma tried_simps [simp]:
  "tried [] = []" "tried (SnapshotFailed # lg) = tried lg" "tried (ConfigChanged # lg) = tried lg"
  "tried (AllFailed # lg) = tried lg" "tried (InvalidEntry i # lg) = InvalidEntry i # tried lg"
  "tried (AgentFailed u # lg) = AgentFailed u # tried lg"
  "tried (UsingProxy l t # lg) = UsingProxy l t # tried lg"
  by (simp_all add: tried_def)

lemma tried_snapshot_log [simp]: "tried (snd (snapshotConfigs S proxies)) = []"
  by (simp add: snapshotConfigs_def split: option.splits)

text \<open>A call with a pool that has entries, in one equation.\<close>

lemma getNextProxyAgent_pool:
  assumes "proxies \<noteq> []"
  shows "getNextProxyAgent S mk (Some proxies) t st =
     (fst (attempt_loop mk t proxies (start_index S proxies st) 0),
      \<lparr>proxyIndex = fst (snd (attempt_loop mk t proxies (start_index S proxies st) 0)),
         lastSnapshot = fst (snapshotConfigs S proxies)\<rparr>,
      snd (snapshotConfigs S proxies) @
      (if fst (snapshotConfigs S proxies) \<noteq> lastSnapshot st then [ConfigChanged] else []) @
      snd (snd (attempt_loop mk t proxies (start_index S proxies st) 0)))"
  using assms
  by (cases "snapshotConfigs S proxies";
      cases "attempt_loop mk t proxies 0 0"; cases "attempt_loop mk t proxies (proxyIndex st) 0")
     (auto simp: getNextProxyAgent_def start_index_def Let_def)

text \<open>
  Claim C7. Without a pool (no array, or an empty one) \<open>getNextProxyAgent\<close> returns null
  at once: the state is as it was and nothing is logged. With a pool, a call tries at
  most as many candidates as the pool has entries; when every entry fails (it is
  skipped, or the constructor throws on it) the call tries each entry once, reports the
  failure of the whole pool and returns null. The function has no other outcome: the
  exceptions of the serialiser and of the constructor are caught inside.
\<close>

theorem C7_exhaustion_and_absence:
  "getNextProxyAgent stringify mkAgent None targetUrl st = (None, st, []) \<and>
   getNextProxyAgent stringify mkAgent (Some []) targetUrl st = (None, st, []) \<and>
   length (tried (snd (snd (getNextProxyAgent stringify mkAgent (Some proxies) targetUrl st))))
     \<le> length proxies \<and>
   (list_all (entry_fails mkAgent) proxies \<longrightarrow>
      fst (getNextProxyAgent stringify mkAgent (Some proxies) targetUrl st) = None \<and>
      length (tried (snd (snd (getNextProxyAgent stringify mkAgent (Some proxies) targetUrl st))))
        = length proxies) \<and>
   (list_all (entry_fails mkAgent) proxies \<and> proxies \<noteq> [] \<longrightarrow>
      last (snd (snd (getNextProxyAgent stringify mkAgent (Some proxies) targetUrl st))) = AllFailed)"
proof (cases "proxies = []")
  case True
  then show ?thesis by (simp add: getNextProxyAgent_def)
next
  case False
  have absent: "getNextProxyAgent stringify mkAgent None targetUrl st = (None, st, [])"
    "getNextProxyAgent stringify mkAgent (Some []) targetUrl st = (None, st, [])"
    by (simp_all add: getNextProxyAgent_def)
  note pool = getNextProxyAgent_pool [OF False, of stringify mkAgent targetUrl st]
  have bound: "length (tried (snd (snd (getNextProxyAgent stringify mkAgent (Some proxies) targetUrl st))))
     \<le> length proxies"
    using attempt_loop_tried [of mkAgent targetUrl proxies "start_index stringify proxies st" 0]
    by (simp add: pool)
  have fail: "fst (getNextProxyAgent stringify mkAgent (Some proxies) targetUrl st) = None \<and>
      length (tried (snd (snd (getNextProxyAgent stringify mkAgent (Some proxies) targetUrl st))))
        = length proxies \<and>
      last (snd (snd (getNextProxyAgent stringify mkAgent (Some proxies) targetUrl st))) = AllFailed"
    if "list_all (entry_fails mkAgent) proxies"
    using attempt_loop_all_fail [OF that, of targetUrl "start_index stringify proxies st" 0]
      attempt_loop_log_nonempty [of mkAgent targetUrl proxies "start_index stringify proxies st" 0]
    by (simp add: pool)
  from absent bound fail show ?thesis by blast
qed

theorem C7_exhaustion_and_absence_witness:
  "list_all (entry_fails sample_agent) dead_pool \<and> dead_pool \<noteq> [] \<and>
   getNextProxyAgent sample_stringify sample_agent (Some dead_pool) ''api/1'' initial_router =
     (None, \<lparr>proxyIndex = 0, lastSnapshot = ''0 b''\<rparr>,
      [ConfigChanged, InvalidEntry 0, InvalidEntry 1, AgentFailed ''bad.example:1'', AllFailed]) \<and>
   length (tried (snd (snd (getNextProxyAgent sample_stringify sample_agent (Some dead_pool)
     ''api/1'' initial_router)))) = length dead_pool"
proof -
  have dead: "list_all (entry_fails sample_agent) dead_pool"
    by (simp add: dead_pool_def entry_fails_def proxy_blank_def proxy_bad_def trim_def
        is_space_def sample_agent_def)
  have ne: "dead_pool \<noteq> []" by (simp add: dead_pool_def)
  have run: "getNextProxyAgent sample_stringify sample_agent (Some dead_pool) ''api/1''
      initial_router =
     (None, \<lparr>proxyIndex = 0, lastSnapshot = ''0 b''\<rparr>,
      [ConfigChanged, InvalidEntry 0, InvalidEntry 1, AgentFailed ''bad.example:1'', AllFailed])"
    by code_simp
  show ?thesis
    using dead ne run
      C7_exhaustion_and_absence [of sample_stringify sample_agent "''api/1''" initial_router
        dead_pool]
    by blast
qed

text \<open>The loop on a pool of two whose first entry is skipped and whose second is usable.\<close>

lemma attempt_loop_pair_from_0:
  assumes "invalid_entry A" and "url B = Some u" and "trim u \<noteq> []" and "mk u = Some agent"
  shows "attempt_loop mk t [A, Some B] 0 0 =
           (Some (agent, B), 0, [InvalidEntry 0, UsingProxy (label_of B u) t])"
proof -
  have second: "attempt_loop mk t [A, Some B] 0 (Suc 0) =
      (Some (agent, B), 0, [UsingProxy (label_of B u) t])"
    using attempt_loop_use [where mk = mk and t = t and proxies = "[A, Some B]" and pI = 0
        and attempt = "Suc 0" and p = B and u = u and agent = agent] assms
    by simp
  have "attempt_loop mk t [A, Some B] 0 0 =
      logged (InvalidEntry 0) (attempt_loop mk t [A, Some B] 0 (Suc 0))"
    using attempt_loop_skip [where mk = mk and t = t and proxies = "[A, Some B]" and pI = 0
        and attempt = 0] assms(1)
    by simp
  then show ?thesis by (simp add: second logged_def)
qed

lemma attempt_loop_pair:
  assumes "invalid_entry A" and "url B = Some u" and "trim u \<noteq> []" and "mk u = Some agent"
  shows "fst (attempt_loop mk t [A, Some B] s 0) = Some (agent, B) \<and>
         fst (snd (attempt_loop mk t [A, Some B] s 0)) = 0"
proof (cases "s mod Suc (Suc 0) = 0")
  case True
  then have next_index: "Suc s mod Suc (Suc 0) = Suc 0" by presburger
  have second: "attempt_loop mk t [A, Some B] s (Suc 0) =
      (Some (agent, B), 0, [UsingProxy (label_of B u) t])"
    using attempt_loop_use [where mk = mk and t = t and proxies = "[A, Some B]" and pI = s
        and attempt = "Suc 0" and p = B and u = u and agent = agent] assms
    by (simp add: next_index)
  have "attempt_loop mk t [A, Some B] s 0 =
      logged (InvalidEntry 0) (attempt_loop mk t [A, Some B] s (Suc 0))"
    using attempt_loop_skip [where mk = mk and t = t and proxies = "[A, Some B]" and pI = s
        and attempt = 0] assms(1)
    by (simp add: True)
  then show ?thesis by (simp add: second)
next
  case False
  then have one: "s mod Suc (Suc 0) = Suc 0" by presburger
  show ?thesis
    using attempt_loop_use [where mk = mk and t = t and proxies = "[A, Some B]" and pI = s
        and attempt = 0 and p = B and u = u and agent = agent] assms
    by (simp add: one)
qed

text \<open>
  Claim C5. For the pool \<open>[A, B]\<close> where \<open>A\<close> is skipped (its URL is missing or blank) and
  \<open>B\<close> is usable, a call returns \<open>B\<close>'s agent with \<open>B\<close>, whatever the state before, and
  leaves the cursor one past \<open>B\<close>, which wraps to 0. The next call starts there, skips
  \<open>A\<close> again and returns \<open>B\<close> again; the cursor is again one past \<open>B\<close>. The cursor is only
  ever written from the index of the entry that was used.
\<close>

theorem C5_router_failover:
  assumes "invalid_entry A" and "url B = Some u" and "trim u \<noteq> []" and "mkAgent u = Some agent"
    and first: "getNextProxyAgent stringify mkAgent (Some [A, Some B]) t1 st = (r1, st1, lg1)"
    and second: "getNextProxyAgent stringify mkAgent (Some [A, Some B]) t2 st1 = (r2, st2, lg2)"
  shows "r1 = Some (agent, B) \<and> proxyIndex st1 = (1 + 1) mod 2 \<and>
         r2 = Some (agent, B) \<and> proxyIndex st2 = (1 + 1) mod 2 \<and>
         tried lg2 = [InvalidEntry 0, UsingProxy (label_of B u) t2]"
proof -
  note pair = attempt_loop_pair [where mk = mkAgent, OF assms(1-4)]
  have ne: "[A, Some B] \<noteq> []" by simp
  from first have r1: "r1 = Some (agent, B)" and st1:
      "st1 = \<lparr>proxyIndex = 0, lastSnapshot = fst (snapshotConfigs stringify [A, Some B])\<rparr>"
    by (simp_all add: getNextProxyAgent_pool [OF ne] pair)
  have start: "start_index stringify [A, Some B]
      \<lparr>proxyIndex = 0, lastSnapshot = fst (snapshotConfigs stringify [A, Some B])\<rparr> = 0"
    by (simp add: start_index_def)
  from second have "r2 = Some (agent, B)" "proxyIndex st2 = 0"
    "tried lg2 = [InvalidEntry 0, UsingProxy (label_of B u) t2]"
    by (auto simp: getNextProxyAgent_pool [OF ne] start st1
        attempt_loop_pair_from_0 [where mk = mkAgent, OF assms(1-4)])
  with r1 st1 show ?thesis by simp
qed

lemma triple_collapse: "x = (fst x, fst (snd x), snd (snd x))"
  by simp

theorem C5_router_failover_witness:
  "invalid_entry (Some proxy_blank) \<and>
   fst (getNextProxyAgent sample_stringify sample_agent (Some failover_pool) ''api/1''
          initial_router) = Some (''agent:b.example:8080'', proxy_B) \<and>
   proxyIndex (fst (snd (getNextProxyAgent sample_stringify sample_agent (Some failover_pool)
          ''api/1'' initial_router))) = 0 \<and>
   fst (getNextProxyAgent sample_stringify sample_agent (Some failover_pool) ''api/2''
          (fst (snd (getNextProxyAgent sample_stringify sample_agent (Some failover_pool)
             ''api/1'' initial_router)))) = Some (''agent:b.example:8080'', proxy_B) \<and>
   tried (snd (snd (getNextProxyAgent sample_stringify sample_agent (Some failover_pool) ''api/2''
          (fst (snd (getNextProxyAgent sample_stringify sample_agent (Some failover_pool)
             ''api/1'' initial_router)))))) =
     [InvalidEntry 0, UsingProxy ''b.example:8080'' ''api/2'']"
proof -
  have h1: "invalid_entry (Some proxy_blank)"
    by (simp add: invalid_entry_def proxy_blank_def trim_def is_space_def)
  have h2: "url proxy_B = Some ''b.example:8080''" by (simp add: proxy_B_def)
  have h3: "trim ''b.example:8080'' \<noteq> []" by (simp add: trim_def is_space_def)
  have h4: "sample_agent ''b.example:8080'' = Some ''agent:b.example:8080''"
    by (simp add: sample_agent_def)
  have lbl: "label_of proxy_B ''b.example:8080'' = ''b.example:8080''"
    by (simp add: label_of_def proxy_B_def)
  show ?thesis
    using h1 C5_router_failover [where stringify = sample_stringify and mkAgent = sample_agent
        and ?t1.0 = "''api/1''" and ?t2.0 = "''api/2''" and st = initial_router,
        OF h1 h2 h3 h4 triple_collapse triple_collapse]
    by (simp add: failover_pool_def lbl)
qed

lemma cursor_ok_initial: "cursor_ok S initial_router"
  by (simp add: cursor_ok_def initial_router_def)

lemma start_index_in_pool:
  assumes "cursor_ok S st" and "proxies \<noteq> []"
  shows "start_index S proxies st < length proxies"
  using assms by (auto simp: start_index_def cursor_ok_def)

lemma cursor_after_call:
  assumes "cursor_ok S st" and "proxies \<noteq> []"
  shows "proxyIndex (fst (snd (getNextProxyAgent S mk (Some proxies) t st))) < length proxies"
  using attempt_loop_cursor [OF start_index_in_pool [OF assms], of mk t 0]
  by (simp add: getNextProxyAgent_pool [OF assms(2)])

lemma cursor_ok_step:
  assumes "fingerprint_gives_length S" and "cursor_ok S st"
  shows "cursor_ok S (fst (snd (getNextProxyAgent S mk pool t st)))"
proof (cases pool)
  case None
  with assms(2) show ?thesis by (simp add: getNextProxyAgent_def)
next
  case (Some proxies)
  show ?thesis
  proof (cases "proxies = []")
    case True
    with Some assms(2) show ?thesis by (simp add: getNextProxyAgent_def)
  next
    case False
    have "proxyIndex (fst (snd (getNextProxyAgent S mk (Some proxies) t st))) < length proxies"
      by (rule cursor_after_call [OF assms(2) False])
    moreover have "lastSnapshot (fst (snd (getNextProxyAgent S mk (Some proxies) t st))) =
        fst (snapshotConfigs S proxies)"
      by (simp add: getNextProxyAgent_pool [OF False])
    ultimately show ?thesis
      using assms(1) Some unfolding cursor_ok_def fingerprint_gives_length_def by metis
  qed
qed

lemma cursor_ok_run:
  assumes "fingerprint_gives_length S" and "cursor_ok S st"
  shows "cursor_ok S (run_calls S mk st calls)"
  using assms(2)
proof (induction calls arbitrary: st)
  case Nil
  then show ?case by simp
next
  case (Cons c calls)
  obtain pool t where c: "c = (pool, t)" by (cases c)
  show ?case
    using Cons.IH [OF cursor_ok_step [OF assms(1) Cons.prems, of mk pool t]] by (simp add: c)
qed

lemma call_without_pool:
  "getNextProxyAgent S mk None t st = (None, st, [])"
  "getNextProxyAgent S mk (Some []) t st = (None, st, [])"
  by (simp_all add: getNextProxyAgent_def)

lemma run_calls_last_recorded_pool:
  "(last_recorded_pool calls = None \<longrightarrow> run_calls S mk st calls = st) \<and>
   (\<forall>q. last_recorded_pool calls = Some q \<longrightarrow>
      lastSnapshot (run_calls S mk st calls) = fst (snapshotConfigs S q))"
proof (induction calls arbitrary: st)
  case Nil
  show ?case by simp
next
  case (Cons c calls)
  obtain pool t where c: "c = (pool, t)" by (cases c)
  let ?st' = "fst (snd (getNextProxyAgent S mk pool t st))"
  show ?case
  proof (cases "last_recorded_pool calls")
    case (Some q)
    with Cons [of ?st'] show ?thesis by (simp add: c)
  next
    case None
    then have same: "run_calls S mk ?st' calls = ?st'" using Cons [of ?st'] by simp
    show ?thesis
    proof (cases pool)
      case None
      with \<open>last_recorded_pool calls = None\<close> same show ?thesis by (simp add: c call_without_pool)
    next
      case (Some p)
      show ?thesis
      proof (cases "p = []")
        case True
        with Some \<open>last_recorded_pool calls = None\<close> same show ?thesis
          by (simp add: c call_without_pool)
      next
        case False
        with Some \<open>last_recorded_pool calls = None\<close> same show ?thesis
          by (simp add: c getNextProxyAgent_pool [OF False])
      qed
    qed
  qed
qed

lemma last_seen_recorded:
  "last_seen_pool calls = Some q \<Longrightarrow> q \<noteq> [] \<Longrightarrow> last_recorded_pool calls = Some q"
proof (induction calls)
  case Nil
  then show ?case by (simp add: last_seen_pool_def)
next
  case (Cons c calls)
  obtain pool t where c: "c = (pool, t)" by (cases c)
  show ?case
  proof (cases "calls = []")
    case True
    with Cons.prems show ?thesis
      by (auto simp: last_seen_pool_def c split: option.splits)
  next
    case False
    with Cons.prems have "last_seen_pool calls = Some q" by (simp add: last_seen_pool_def)
    then have "last_recorded_pool calls = Some q" using Cons.prems(2) by (rule Cons.IH)
    then show ?thesis by (simp add: c)
  qed
qed

lemma start_index_after_calls:
  assumes "case last_recorded_pool calls of None \<Rightarrow> True
           | Some q \<Rightarrow> fst (snapshotConfigs S proxies) \<noteq> fst (snapshotConfigs S q)"
  shows "start_index S proxies (run_calls S mk initial_router calls) = 0"
proof (cases "last_recorded_pool calls")
  case None
  then have "run_calls S mk initial_router calls = initial_router"
    using run_calls_last_recorded_pool [of calls S mk initial_router] by simp
  then show ?thesis by (simp add: start_index_def initial_router_def)
next
  case (Some q)
  then have "lastSnapshot (run_calls S mk initial_router calls) = fst (snapshotConfigs S q)"
    using run_calls_last_recorded_pool [of calls S mk initial_router] by simp
  with Some assms show ?thesis by (simp add: start_index_def)
qed

lemma recorded_changed_of_seen:
  assumes "case last_seen_pool calls of None \<Rightarrow> True
           | Some q \<Rightarrow> q \<noteq> [] \<and>
               fst (snapshotConfigs S proxies) \<noteq> fst (snapshotConfigs S q)"
  shows "case last_recorded_pool calls of None \<Rightarrow> True
         | Some q \<Rightarrow> fst (snapshotConfigs S proxies) \<noteq> fst (snapshotConfigs S q)"
proof (cases "last_seen_pool calls")
  case None
  then have "calls = []" by (simp add: last_seen_pool_def split: if_splits)
  then show ?thesis by simp
next
  case (Some q)
  with assms have q: "q \<noteq> []"
    and differs: "fst (snapshotConfigs S proxies) \<noteq> fst (snapshotConfigs S q)"
    by simp_all
  have "last_recorded_pool calls = Some q" by (rule last_seen_recorded [OF Some q])
  with differs show ?thesis by simp
qed

text \<open>
  Claim C6, as the code has it. From the initial module state, after any sequence of
  calls, a call with a pool that has entries leaves the cursor below the length of that
  pool (given that the serialiser tells pools of different lengths apart). The reset
  is against the recorded snapshot, which is that of the last pool with entries a call
  was given (\<open>last_recorded_pool\<close>), not that of the pool of the call before
  (\<open>last_seen_pool\<close>): whenever the snapshot of the pool differs from that of the last
  pool with entries (or no such pool was seen), the call is the loop started at
  index 0: its result, the cursor it leaves and the candidates it tries are those of
  the loop from 0. In any state, a snapshot that differs from the recorded one resets
  the cursor before the first candidate is tried, is recorded, and the change is logged.
  In the words of the specification: the reset happens whenever the pool differs from
  the last-seen pool and that pool had entries, or the call is the first.
\<close>

theorem C6_rotation_cursor:
  assumes "fingerprint_gives_length stringify" and "proxies \<noteq> []"
  shows "proxyIndex (fst (snd (getNextProxyAgent stringify mkAgent (Some proxies) t
            (run_calls stringify mkAgent initial_router calls)))) < length proxies \<and>
         ((case last_recorded_pool calls of None \<Rightarrow> True
           | Some q \<Rightarrow> fst (snapshotConfigs stringify proxies) \<noteq> fst (snapshotConfigs stringify q))
          \<longrightarrow>
            fst (getNextProxyAgent stringify mkAgent (Some proxies) t
                   (run_calls stringify mkAgent initial_router calls)) =
              fst (attempt_loop mkAgent t proxies 0 0) \<and>
            proxyIndex (fst (snd (getNextProxyAgent stringify mkAgent (Some proxies) t
                   (run_calls stringify mkAgent initial_router calls)))) =
              fst (snd (attempt_loop mkAgent t proxies 0 0)) \<and>
            tried (snd (snd (getNextProxyAgent stringify mkAgent (Some proxies) t
                   (run_calls stringify mkAgent initial_router calls)))) =
              tried (snd (snd (attempt_loop mkAgent t proxies 0 0)))) \<and>
         (fst (snapshotConfigs stringify proxies) \<noteq> lastSnapshot st \<longrightarrow>
            getNextProxyAgent stringify mkAgent (Some proxies) t st =
              (fst (attempt_loop mkAgent t proxies 0 0),
               \<lparr>proxyIndex = fst (snd (attempt_loop mkAgent t proxies 0 0)),
                  lastSnapshot = fst (snapshotConfigs stringify proxies)\<rparr>,
               snd (snapshotConfigs stringify proxies) @ [ConfigChanged] @
               snd (snd (attempt_loop mkAgent t proxies 0 0)))) \<and>
         ((case last_seen_pool calls of None \<Rightarrow> True
           | Some q \<Rightarrow> q \<noteq> [] \<and>
               fst (snapshotConfigs stringify proxies) \<noteq> fst (snapshotConfigs stringify q))
          \<longrightarrow>
            fst (getNextProxyAgent stringify mkAgent (Some proxies) t
                   (run_calls stringify mkAgent initial_router calls)) =
              fst (attempt_loop mkAgent t proxies 0 0) \<and>
            proxyIndex (fst (snd (getNextProxyAgent stringify mkAgent (Some proxies) t
                   (run_calls stringify mkAgent initial_router calls)))) =
              fst (snd (attempt_loop mkAgent t proxies 0 0)) \<and>
            tried (snd (snd (getNextProxyAgent stringify mkAgent (Some proxies) t
                   (run_calls stringify mkAgent initial_router calls)))) =
              tried (snd (snd (attempt_loop mkAgent t proxies 0 0))))"
proof (intro conjI impI)
  show "proxyIndex (fst (snd (getNextProxyAgent stringify mkAgent (Some proxies) t
            (run_calls stringify mkAgent initial_router calls)))) < length proxies"
    by (rule cursor_after_call [OF cursor_ok_run [OF assms(1) cursor_ok_initial] assms(2)])
next
  assume "fst (snapshotConfigs stringify proxies) \<noteq> lastSnapshot st"
  then show "getNextProxyAgent stringify mkAgent (Some proxies) t st =
              (fst (attempt_loop mkAgent t proxies 0 0),
               \<lparr>proxyIndex = fst (snd (attempt_loop mkAgent t proxies 0 0)),
                  lastSnapshot = fst (snapshotConfigs stringify proxies)\<rparr>,
               snd (snapshotConfigs stringify proxies) @ [ConfigChanged] @
               snd (snd (attempt_loop mkAgent t proxies 0 0)))"
    by (simp add: getNextProxyAgent_pool [OF assms(2)] start_index_def)
next
  assume changed: "case last_recorded_pool calls of None \<Rightarrow> True
     | Some q \<Rightarrow> fst (snapshotConfigs stringify proxies) \<noteq> fst (snapshotConfigs stringify q)"
  note start = start_index_after_calls [OF changed, of mkAgent]
  show "fst (getNextProxyAgent stringify mkAgent (Some proxies) t
                   (run_calls stringify mkAgent initial_router calls)) =
              fst (attempt_loop mkAgent t proxies 0 0)"
    by (simp add: getNextProxyAgent_pool [OF assms(2)] start)
  show "proxyIndex (fst (snd (getNextProxyAgent stringify mkAgent (Some proxies) t
                   (run_calls stringify mkAgent initial_router calls)))) =
              fst (snd (attempt_loop mkAgent t proxies 0 0))"
    by (simp add: getNextProxyAgent_pool [OF assms(2)] start)
  show "tried (snd (snd (getNextProxyAgent stringify mkAgent (Some proxies) t
                   (run_calls stringify mkAgent initial_router calls)))) =
              tried (snd (snd (attempt_loop mkAgent t proxies 0 0)))"
    by (simp add: getNextProxyAgent_pool [OF assms(2)] start)
next
  assume seen: "case last_seen_pool calls of None \<Rightarrow> True
     | Some q \<Rightarrow> q \<noteq> [] \<and>
         fst (snapshotConfigs stringify proxies) \<noteq> fst (snapshotConfigs stringify q)"
  note start = start_index_after_calls [OF recorded_changed_of_seen [OF seen], of mkAgent]
  show "fst (getNextProxyAgent stringify mkAgent (Some proxies) t
                   (run_calls stringify mkAgent initial_router calls)) =
              fst (attempt_loop mkAgent t proxies 0 0)"
    by (simp add: getNextProxyAgent_pool [OF assms(2)] start)
  show "proxyIndex (fst (snd (getNextProxyAgent stringify mkAgent (Some proxies) t
                   (run_calls stringify mkAgent initial_router calls)))) =
              fst (snd (attempt_loop mkAgent t proxies 0 0))"
    by (simp add: getNextProxyAgent_pool [OF assms(2)] start)
  show "tried (snd (snd (getNextProxyAgent stringify mkAgent (Some proxies) t
                   (run_calls stringify mkAgent initial_router calls)))) =
              tried (snd (snd (attempt_loop mkAgent t proxies 0 0)))"
    by (simp add: getNextProxyAgent_pool [OF assms(2)] start)
qed

lemma sample_stringify_length: "fingerprint_gives_length sample_stringify"
  unfolding fingerprint_gives_length_def snapshotConfigs_def sample_stringify_def
  by (auto dest: map_eq_imp_length_eq)

text \<open>
  An instance: after a call with the pool \<open>[A, B]\<close> has left the cursor at 1, a call with
  the pool \<open>[B, C]\<close> returns \<open>B\<close>, the entry at index 0 of the new pool.
\<close>

theorem C6_rotation_cursor_witness:
  "fingerprint_gives_length sample_stringify \<and>
   run_calls sample_stringify sample_agent initial_router first_calls =
     \<lparr>proxyIndex = 1, lastSnapshot = ''ab''\<rparr> \<and>
   last_recorded_pool first_calls = Some [Some proxy_A, Some proxy_B] \<and>
   fst (getNextProxyAgent sample_stringify sample_agent (Some [Some proxy_B, Some proxy_C]) ''api/2''
     (run_calls sample_stringify sample_agent initial_router first_calls)) =
     Some (''agent:b.example:8080'', proxy_B) \<and>
   proxyIndex (fst (snd (getNextProxyAgent sample_stringify sample_agent
     (Some [Some proxy_B, Some proxy_C]) ''api/2''
     (run_calls sample_stringify sample_agent initial_router first_calls)))) < 2 \<and>
   last_seen_pool first_calls = Some [Some proxy_A, Some proxy_B] \<and>
   tried (snd (snd (getNextProxyAgent sample_stringify sample_agent
     (Some [Some proxy_B, Some proxy_C]) ''api/2''
     (run_calls sample_stringify sample_agent initial_router first_calls)))) =
     [UsingProxy ''b.example:8080'' ''api/2'']"
proof -
  have ne: "[Some proxy_B, Some proxy_C] \<noteq> []" by simp
  have before: "run_calls sample_stringify sample_agent initial_router first_calls =
     \<lparr>proxyIndex = 1, lastSnapshot = ''ab''\<rparr>"
    by code_simp
  have seen: "last_recorded_pool first_calls = Some [Some proxy_A, Some proxy_B]"
    by code_simp
  have changed: "case last_recorded_pool first_calls of None \<Rightarrow> True
     | Some q \<Rightarrow> fst (snapshotConfigs sample_stringify [Some proxy_B, Some proxy_C]) \<noteq>
         fst (snapshotConfigs sample_stringify q)"
    by code_simp
  have from0: "fst (attempt_loop sample_agent ''api/2'' [Some proxy_B, Some proxy_C] 0 0) =
     Some (''agent:b.example:8080'', proxy_B)"
    by code_simp
  note inst = C6_rotation_cursor [OF sample_stringify_length ne, of sample_agent "''api/2''"
      first_calls initial_router]
  have lt: "proxyIndex (fst (snd (getNextProxyAgent sample_stringify sample_agent
      (Some [Some proxy_B, Some proxy_C]) ''api/2''
      (run_calls sample_stringify sample_agent initial_router first_calls))))
      < length [Some proxy_B, Some proxy_C]"
    by (rule inst [THEN conjunct1])
  have eq: "fst (getNextProxyAgent sample_stringify sample_agent
      (Some [Some proxy_B, Some proxy_C]) ''api/2''
      (run_calls sample_stringify sample_agent initial_router first_calls)) =
      fst (attempt_loop sample_agent ''api/2'' [Some proxy_B, Some proxy_C] 0 0)"
    by (rule inst [THEN conjunct2, THEN conjunct1, THEN mp, OF changed, THEN conjunct1])
  have lt2: "proxyIndex (fst (snd (getNextProxyAgent sample_stringify sample_agent
      (Some [Some proxy_B, Some proxy_C]) ''api/2''
      (run_calls sample_stringify sample_agent initial_router first_calls)))) < 2"
    using lt by simp
  have before_seen: "last_seen_pool first_calls = Some [Some proxy_A, Some proxy_B]"
    by code_simp
  have differs: "case last_seen_pool first_calls of None \<Rightarrow> True
     | Some q \<Rightarrow> q \<noteq> [] \<and>
         fst (snapshotConfigs sample_stringify [Some proxy_B, Some proxy_C]) \<noteq>
         fst (snapshotConfigs sample_stringify q)"
    by code_simp
  have tried0: "tried (snd (snd (attempt_loop sample_agent ''api/2''
      [Some proxy_B, Some proxy_C] 0 0))) = [UsingProxy ''b.example:8080'' ''api/2'']"
    by code_simp
  have candidates: "tried (snd (snd (getNextProxyAgent sample_stringify sample_agent
      (Some [Some proxy_B, Some proxy_C]) ''api/2''
      (run_calls sample_stringify sample_agent initial_router first_calls)))) =
      tried (snd (snd (attempt_loop sample_agent ''api/2'' [Some proxy_B, Some proxy_C] 0 0)))"
    by (rule inst [THEN conjunct2, THEN conjunct2, THEN conjunct2, THEN mp, OF differs,
          THEN conjunct2, THEN conjunct2])
  from sample_stringify_length before seen eq [unfolded from0] lt2 before_seen
    candidates [unfolded tried0]
  show ?thesis
    by (intro conjI)
qed

text \<open>
  Claim C6 as the specification words it fails where the call before had an empty pool.
  After a call with \<open>[A, B]\<close> (which returns \<open>A\<close> and leaves the cursor at 1) and a call
  while the pool is empty, the last-seen pool is the empty one, and \<open>[A, B]\<close> differs
  from it by snapshot. A reset would make the next call with \<open>[A, B]\<close> start at index 0
  and return \<open>A\<close>. The call with the empty pool returned before the snapshot was
  compared, so the state still holds the snapshot of \<open>[A, B]\<close> and the cursor 1: the call
  starts at index 1, returns \<open>B\<close>, and logs no change of configuration.
\<close>

theorem C6_rotation_cursor_counterexample:
  "last_seen_pool interrupted_calls = Some [] \<and>
   fst (snapshotConfigs sample_stringify [Some proxy_A, Some proxy_B]) \<noteq>
     fst (snapshotConfigs sample_stringify []) \<and>
   run_calls sample_stringify sample_agent initial_router interrupted_calls =
     \<lparr>proxyIndex = 1, lastSnapshot = ''ab''\<rparr> \<and>
   start_index sample_stringify [Some proxy_A, Some proxy_B]
     (run_calls sample_stringify sample_agent initial_router interrupted_calls) = 1 \<and>
   getNextProxyAgent sample_stringify sample_agent (Some [Some proxy_A, Some proxy_B]) ''api/3''
     (run_calls sample_stringify sample_agent initial_router interrupted_calls) =
     (Some (''agent:b.example:8080'', proxy_B),
      \<lparr>proxyIndex = 0, lastSnapshot = ''ab''\<rparr>,
      [UsingProxy ''b.example:8080'' ''api/3'']) \<and>
   fst (attempt_loop sample_agent ''api/3'' [Some proxy_A, Some proxy_B] 0 0) =
     Some (''agent:a.example:8080'', proxy_A)"
  by code_simp
section \<open>The rule compiler\<close>

lemma map_of_insert_index:
  "k \<notin> fst ` set obj \<Longrightarrow> map_of (insert_index k v obj) = (map_of obj)(k \<mapsto> v)"
  by (induction obj) (auto simp: fun_eq_iff)

lemma map_of_js_set:
  "map_of (js_set obj k v) = (if k = ''__proto__'' then map_of obj else (map_of obj)(k \<mapsto> v))"
  by (simp add: js_set_def map_of_insert_index AList.update_conv')

lemma mset_insert_index: "mset (insert_index k v obj) = add_mset (k, v) (mset obj)"
  by (induction obj) auto

lemma set_insert_index: "set (insert_index k v obj) = insert (k, v) (set obj)"
  using mset_insert_index [of k v obj, THEN arg_cong, of set_mset] by simp

lemma keys_insert_index: "fst ` set (insert_index k v obj) = insert k (fst ` set obj)"
  by (simp add: set_insert_index)

lemma distinct_insert_index:
  "k \<notin> fst ` set obj \<Longrightarrow> distinct (map fst obj) \<Longrightarrow> distinct (map fst (insert_index k v obj))"
proof (induction obj)
  case Nil
  show ?case by simp
next
  case (Cons e obj)
  then show ?case using keys_insert_index [of k v obj] by (cases e) auto
qed

lemma distinct_js_set: "distinct (map fst obj) \<Longrightarrow> distinct (map fst (js_set obj k v))"
  by (simp add: js_set_def distinct_insert_index AList.distinct_update)

lemma assign_entries_append:
  "assign_entries d (xs @ ys) = assign_entries (assign_entries d xs) ys"
  by (induction d xs rule: assign_entries.induct) simp_all

lemma assign_reversed_swap: "assign_reversed d es = assign_entries d (map swap_entry es)"
  by (induction d es rule: assign_reversed.induct) (simp_all add: swap_entry_def)

lemma map_of_assign_entries:
  "map_of (assign_entries d es) = map_of d ++ map_of (rev (filter storable es))"
proof (induction d es rule: assign_entries.induct)
  case (1 d)
  show ?case by simp
next
  case (2 d key val rest)
  show ?case
  proof (cases "key = ''__proto__''")
    case True
    with 2 show ?thesis by (simp add: map_of_js_set storable_def)
  next
    case False
    then have set_key: "map_of (js_set d key val) = map_of d ++ [key \<mapsto> val]"
      by (simp add: map_of_js_set)
    have "map_of (assign_entries d ((key, val) # rest)) =
        map_of (js_set d key val) ++ map_of (rev (filter storable rest))"
      using 2 by simp
    also have "\<dots> = map_of d ++ ([key \<mapsto> val] ++ map_of (rev (filter storable rest)))"
      by (simp only: set_key map_add_assoc)
    also have "[key \<mapsto> val] ++ map_of (rev (filter storable rest)) =
        map_of (rev (filter storable ((key, val) # rest)))"
      using False by (simp add: storable_def)
    finally show ?thesis .
  qed
qed

lemma distinct_assign_entries:
  "distinct (map fst d) \<Longrightarrow> distinct (map fst (assign_entries d es))"
  by (induction d es rule: assign_entries.induct) (simp_all add: distinct_js_set)

lemma build_request_entries:
  "build_request d (map Some rules) = Inr (assign_entries d (forward_entries rules))"
proof (induction rules arbitrary: d)
  case Nil
  show ?case by (simp add: forward_entries_def)
next
  case (Cons r rules)
  show ?case
    by (simp add: Cons forward_entries_def rule_entries_def assign_entries_append
        split: option.splits)
qed

lemma build_response_entries:
  "build_response d (map Some rules) = Inr (assign_entries d (reverse_entries rules))"
proof (induction rules arbitrary: d)
  case Nil
  show ?case by (simp add: reverse_entries_def)
next
  case (Cons r rules)
  show ?case
    using Cons [of d] Cons [of "assign_reversed d (rule_entries r)"]
    by (auto simp: reverse_entries_def rule_entries_def assign_entries_append
        assign_reversed_swap split: option.splits)
qed

lemma loadReplacements_entries:
  "loadReplacements (Parsed (Some (map Some rules))) =
     \<lparr>requestReplacements = assign_entries [] (forward_entries rules),
        responseReplacements = assign_entries [] (reverse_entries rules)\<rparr>"
  by (simp add: loadReplacements_def build_request_entries build_response_entries)

lemma compiler_dictionary_contents:
  "map_of (requestReplacements (loadReplacements (Parsed (Some (map Some rules))))) =
     map_of (rev (filter storable (forward_entries rules))) \<and>
   map_of (responseReplacements (loadReplacements (Parsed (Some (map Some rules))))) =
     map_of (rev (filter storable (reverse_entries rules))) \<and>
   distinct (keys (requestReplacements (loadReplacements (Parsed (Some (map Some rules)))))) \<and>
   distinct (keys (responseReplacements (loadReplacements (Parsed (Some (map Some rules))))))"
  using distinct_assign_entries [of "[]" "forward_entries rules"]
    distinct_assign_entries [of "[]" "reverse_entries rules"]
  by (simp add: loadReplacements_entries map_of_assign_entries keys_def)

text \<open>
  Claim C8, as the code has it. For a rule list without null elements, a key looked up
  in the forward dictionary gives what the last active rule that names it as a pattern
  assigned (\<open>map_of\<close> of the reversed entry list is the last writer), and a key looked
  up in the reverse dictionary gives what the last active rule with \<open>res-obfs\<close> that
  names it as a replacement assigned; inactive rules assign nothing. The one exception
  is the key \<open>__proto__\<close>: the assignment stores nothing for it. So the active rule
  \<open>__proto__ \<rightarrow> x\<close> leaves the forward dictionary empty, and the active reversible rule
  \<open>a \<rightarrow> __proto__\<close> leaves the reverse dictionary empty. (The engine with the flat
  replacement file keeps the parsed object as its forward dictionary, and with it an
  entry \<open>__proto__ \<rightarrow> x\<close>.)
\<close>

theorem C8_dictionary_contents:
  "map_of (requestReplacements (loadReplacements (Parsed (Some (map Some rules))))) =
     map_of (rev (filter storable (forward_entries rules))) \<and>
   map_of (responseReplacements (loadReplacements (Parsed (Some (map Some rules))))) =
     map_of (rev (filter storable (reverse_entries rules))) \<and>
   forward_entries proto_rules = [(''__proto__'', ''x'')] \<and>
   requestReplacements (loadReplacements (Parsed (Some (map Some proto_rules)))) = [] \<and>
   obfuscateRequestBody (loadReplacements (Parsed (Some (map Some proto_rules))))
     (JString ''a __proto__ b'') = JString ''a __proto__ b'' \<and>
   reverse_entries proto_target_rules = [(''__proto__'', ''a'')] \<and>
   requestReplacements (loadReplacements (Parsed (Some (map Some proto_target_rules)))) =
     [(''a'', ''__proto__'')] \<and>
   responseReplacements (loadReplacements (Parsed (Some (map Some proto_target_rules)))) = [] \<and>
   fst (loadReplacements_flat (ReplaceFile [(''__proto__'', ''x'')])) = [(''__proto__'', ''x'')]"
proof -
  have general:
    "map_of (requestReplacements (loadReplacements (Parsed (Some (map Some rules))))) =
       map_of (rev (filter storable (forward_entries rules)))"
    "map_of (responseReplacements (loadReplacements (Parsed (Some (map Some rules))))) =
       map_of (rev (filter storable (reverse_entries rules)))"
    using compiler_dictionary_contents [of rules] by simp_all
  have at_proto:
    "forward_entries proto_rules = [(''__proto__'', ''x'')]"
    "requestReplacements (loadReplacements (Parsed (Some (map Some proto_rules)))) = []"
    "obfuscateRequestBody (loadReplacements (Parsed (Some (map Some proto_rules))))
       (JString ''a __proto__ b'') = JString ''a __proto__ b''"
    "reverse_entries proto_target_rules = [(''__proto__'', ''a'')]"
    "requestReplacements (loadReplacements (Parsed (Some (map Some proto_target_rules)))) =
       [(''a'', ''__proto__'')]"
    "responseReplacements (loadReplacements (Parsed (Some (map Some proto_target_rules)))) = []"
    "fst (loadReplacements_flat (ReplaceFile [(''__proto__'', ''x'')])) = [(''__proto__'', ''x'')]"
    by code_simp+
  from general at_proto show ?thesis by blast
qed

section \<open>Substitution and its inverse on strings\<close>

lemma split_scan_nonempty: "split_scan sep cur s \<noteq> []"
  by (induction sep cur s rule: split_scan.induct) simp_all

lemma join_Cons: "xs \<noteq> [] \<Longrightarrow> join (x # xs) sep = x @ sep @ join xs sep"
  by (cases xs) simp_all

lemma join_split_scan:
  "key \<noteq> [] \<Longrightarrow> join (split_scan key cur s) val = cur @ replace_all key val s"
proof (induction key cur s rule: split_scan.induct)
  case (1 sep cur)
  show ?case by simp
next
  case (2 sep cur c cs)
  show ?case
  proof (cases "prefix sep (c # cs)")
    case True
    with 2 show ?thesis by (simp add: join_Cons split_scan_nonempty)
  next
    case False
    with 2 show ?thesis by simp
  qed
qed

lemma split_join_replace_all: "key \<noteq> [] \<Longrightarrow> join (split s key) val = replace_all key val s"
  by (simp add: split_def join_split_scan)

lemma replace_all_at_key:
  "key \<noteq> [] \<Longrightarrow> replace_all key val (key @ t) = val @ replace_all key val t"
  by (cases key) simp_all

lemma replace_all_no_match:
  "\<not> prefix key (c # cs) \<Longrightarrow> replace_all key val (c # cs) = c # replace_all key val cs"
  by simp

lemma replace_all_skip:
  "key \<noteq> [] \<Longrightarrow> hd key \<notin> set u \<Longrightarrow> replace_all key val (u @ t) = u @ replace_all key val t"
proof (induction u)
  case Nil
  show ?case by simp
next
  case (Cons c u)
  then have "\<not> prefix key ((c # u) @ t)" by (cases key) auto
  with Cons show ?case by simp
qed

lemma set_replace_all: "set (replace_all key val s) \<subseteq> set s \<union> set val"
proof (induction key val s rule: replace_all.induct)
  case (1 key val)
  show ?case by simp
next
  case (2 key val c cs)
  have "set (drop (length key) (c # cs)) \<subseteq> set (c # cs)" by (rule set_drop_subset)
  with 2 show ?case by (auto split: if_splits)
qed

lemma replace_all_undo:
  "p \<noteq> [] \<Longrightarrow> r \<noteq> [] \<Longrightarrow> hd r \<notin> set s \<Longrightarrow> replace_all r p (replace_all p r s) = s"
proof (induction p r s rule: replace_all.induct)
  case (1 key val)
  show ?case by simp
next
  case (2 p r c cs)
  show ?case
  proof (cases "prefix p (c # cs)")
    case True
    then obtain t where t: "c # cs = p @ t" by (auto simp: prefix_def)
    then have drop: "drop (length p) (c # cs) = t" by simp
    have "hd r \<notin> set t" using "2.prems"(3) t by (metis Un_iff set_append)
    with 2 True drop have IH: "replace_all r p (replace_all p r t) = t" by simp
    have "replace_all p r (c # cs) = r @ replace_all p r t"
      using True "2.prems"(1) drop by simp
    then show ?thesis using IH "2.prems"(2) t by (simp add: replace_all_at_key)
  next
    case False
    have "\<not> prefix r (c # replace_all p r cs)"
      using "2.prems"(2,3) by (cases r) auto
    with False 2 show ?thesis by simp
  qed
qed

lemma prefix_replace_all:
  "r \<noteq> [] \<Longrightarrow> p \<noteq> [] \<Longrightarrow> set q \<inter> set r = {} \<Longrightarrow> set q \<inter> set p = {} \<Longrightarrow>
   prefix q (replace_all r p s) = prefix q s"
proof (induction r p s arbitrary: q rule: replace_all.induct)
  case (1 key val)
  show ?case by simp
next
  case (2 r p c cs)
  show ?case
  proof (cases q)
    case Nil
    then show ?thesis by simp
  next
    case (Cons d q')
    show ?thesis
    proof (cases "prefix r (c # cs)")
      case True
      then have "hd r = c" using "2.prems"(1) by (cases r) auto
      then have "d \<noteq> c" using "2.prems"(1,3) Cons by (cases r) auto
      moreover have "d \<noteq> hd p" using "2.prems"(2,4) Cons by (cases p) auto
      ultimately show ?thesis using True "2.prems"(1,2) Cons by (cases p) auto
    next
      case False
      have "set q' \<inter> set r = {}" "set q' \<inter> set p = {}"
        using "2.prems"(3,4) Cons by auto
      with 2 False have "prefix q' (replace_all r p cs) = prefix q' cs" by simp
      with False Cons show ?thesis by simp
    qed
  qed
qed

lemma replace_all_commute:
  assumes "ra \<noteq> []" "pa \<noteq> []" "rb \<noteq> []" "pb \<noteq> []"
    and "set ra \<inter> set rb = {}" "set ra \<inter> set pb = {}" "set rb \<inter> set pa = {}"
  shows "replace_all ra pa (replace_all rb pb t) = replace_all rb pb (replace_all ra pa t)"
proof (induction t rule: length_induct)
  case (1 t)
  show ?case
  proof (cases t)
    case Nil
    then show ?thesis by simp
  next
    case (Cons c cs)
    have hd_a: "hd ra \<in> set ra" and hd_b: "hd rb \<in> set rb" using assms(1,3) by simp_all
    consider (a) "prefix ra t" | (b) "prefix rb t" | (none) "\<not> prefix ra t" "\<not> prefix rb t"
      by blast
    then show ?thesis
    proof cases
      case a
      then obtain t' where t': "t = ra @ t'" by (auto simp: prefix_def)
      then have "length t' < length t" using assms(1) by simp
      with 1 have IH: "replace_all ra pa (replace_all rb pb t') =
          replace_all rb pb (replace_all ra pa t')" by blast
      have "hd rb \<notin> set ra" "hd rb \<notin> set pa" using hd_b assms(5,7) by auto
      then have "replace_all rb pb t = ra @ replace_all rb pb t'"
          "replace_all rb pb (pa @ replace_all ra pa t') = pa @ replace_all rb pb (replace_all ra pa t')"
        using assms(3) t' by (simp_all add: replace_all_skip)
      then show ?thesis using IH assms(1) t' by (simp add: replace_all_at_key)
    next
      case b
      then obtain t' where t': "t = rb @ t'" by (auto simp: prefix_def)
      then have "length t' < length t" using assms(3) by simp
      with 1 have IH: "replace_all ra pa (replace_all rb pb t') =
          replace_all rb pb (replace_all ra pa t')" by blast
      have "hd ra \<notin> set rb" "hd ra \<notin> set pb" using hd_a assms(5,6) by auto
      then have "replace_all ra pa t = rb @ replace_all ra pa t'"
          "replace_all ra pa (pb @ replace_all rb pb t') = pb @ replace_all ra pa (replace_all rb pb t')"
        using assms(1) t' by (simp_all add: replace_all_skip)
      then show ?thesis using IH assms(3) t' by (simp add: replace_all_at_key)
    next
      case none
      have IH: "replace_all ra pa (replace_all rb pb cs) =
          replace_all rb pb (replace_all ra pa cs)"
        using 1 Cons by simp
      have ta: "replace_all ra pa t = c # replace_all ra pa cs"
        and tb: "replace_all rb pb t = c # replace_all rb pb cs"
        using none Cons by simp_all
      have "\<not> prefix ra (replace_all rb pb t)"
        using none(1) prefix_replace_all [OF assms(3,4,5,6), of t] by simp
      then have left: "replace_all ra pa (c # replace_all rb pb cs) =
          c # replace_all ra pa (replace_all rb pb cs)"
        by (simp add: tb)
      have "set rb \<inter> set ra = {}" using assms(5) by auto
      then have "\<not> prefix rb (replace_all ra pa t)"
        using none(2) prefix_replace_all [OF assms(1,2) _ assms(7), of t] by simp
      then have right: "replace_all rb pb (c # replace_all ra pa cs) =
          c # replace_all rb pb (replace_all ra pa cs)"
        by (simp add: ta)
      show ?thesis by (simp only: ta tb left right IH)
    qed
  qed
qed


lemma swap_entry_simps [simp]:
  "fst (swap_entry e) = snd e" "snd (swap_entry e) = fst e" "swap_entry (a, b) = (b, a)"
  by (simp_all add: swap_entry_def)

lemma apply_entries_fold: "apply_entries d s = fold replace_entry d s"
  by (induction d s rule: apply_entries.induct) (simp_all add: replace_entry_def)

lemma replace_entry_replace_all:
  "fst e \<noteq> [] \<Longrightarrow> replace_entry e t = replace_all (fst e) (snd e) t"
  by (simp add: replace_entry_def split_join_replace_all)

lemma fold_replace_entry_Nil:
  "\<forall>e \<in> set d. fst e \<noteq> [] \<Longrightarrow> fold replace_entry d [] = []"
  by (induction d) (simp_all add: replace_entry_replace_all)

lemma set_fold_replace_entry:
  "\<forall>e \<in> set d. fst e \<noteq> [] \<Longrightarrow>
   set (fold replace_entry d s) \<subseteq> set s \<union> (\<Union>e \<in> set d. set (snd e))"
proof (induction d arbitrary: s)
  case Nil
  show ?case by simp
next
  case (Cons e d)
  have "set (fold replace_entry d (replace_entry e s)) \<subseteq>
      set (replace_entry e s) \<union> (\<Union>e \<in> set d. set (snd e))"
    using Cons by simp
  moreover have "set (replace_entry e s) \<subseteq> set s \<union> set (snd e)"
    using Cons.prems set_replace_all [of "fst e" "snd e" s]
    by (simp add: replace_entry_replace_all)
  ultimately show ?case by auto
qed

text \<open>The reverse rules undo the forward rules when they run in the opposite order.\<close>

lemma fold_replace_entry_undo:
  assumes "distinct d"
    and "\<forall>e \<in> set d. fst e \<noteq> [] \<and> snd e \<noteq> []"
    and "\<forall>e \<in> set d. \<forall>e' \<in> set d. e \<noteq> e' \<longrightarrow> set (snd e) \<inter> set (snd e') = {}"
    and "\<forall>e \<in> set d. hd (snd e) \<notin> set s"
  shows "fold replace_entry (rev (map swap_entry d)) (fold replace_entry d s) = s"
  using assms
proof (induction d rule: rev_induct)
  case Nil
  show ?case by simp
next
  case (snoc e d)
  let ?y = "fold replace_entry d s"
  have keys: "\<forall>e \<in> set d. fst e \<noteq> []" using snoc.prems(2) by simp
  have "set ?y \<subseteq> set s \<union> (\<Union>e \<in> set d. set (snd e))"
    by (rule set_fold_replace_entry [OF keys])
  moreover have "hd (snd e) \<notin> set s" using snoc.prems(4) by simp
  moreover have ne: "snd e \<noteq> []" "fst e \<noteq> []" using snoc.prems(2) by simp_all
  moreover have "\<forall>e' \<in> set d. set (snd e) \<inter> set (snd e') = {}"
    using snoc.prems(1,3) by auto
  then have "\<forall>e' \<in> set d. hd (snd e) \<notin> set (snd e')"
    using hd_in_set [OF ne(1)] by blast
  ultimately have "hd (snd e) \<notin> set ?y" by blast
  then have undo: "replace_all (snd e) (fst e) (replace_all (fst e) (snd e) ?y) = ?y"
    using ne by (intro replace_all_undo)
  have "fold replace_entry (rev (map swap_entry d)) ?y = s"
    using snoc by auto
  then show ?case
    using undo \<open>fst e \<noteq> []\<close> \<open>snd e \<noteq> []\<close>
    by (simp add: replace_entry_replace_all)
qed

text \<open>The reverse rules commute, so their order does not matter.\<close>

lemma replace_entry_swap_commute:
  assumes "fst e \<noteq> []" "snd e \<noteq> []" "fst e' \<noteq> []" "snd e' \<noteq> []"
    and "e \<noteq> e' \<longrightarrow> set (snd e) \<inter> set (snd e') = {}"
    and "e \<noteq> e' \<longrightarrow> set (snd e) \<inter> set (fst e') = {}"
    and "e \<noteq> e' \<longrightarrow> set (snd e') \<inter> set (fst e) = {}"
  shows "replace_entry (swap_entry e) \<circ> replace_entry (swap_entry e') =
         replace_entry (swap_entry e') \<circ> replace_entry (swap_entry e)"
proof (cases "e = e'")
  case True
  then show ?thesis by simp
next
  case False
  with assms(5,6,7) have apart: "set (snd e) \<inter> set (snd e') = {}"
    and left: "set (snd e) \<inter> set (fst e') = {}"
    and right: "set (snd e') \<inter> set (fst e) = {}"
    by simp_all
  show ?thesis
    using replace_all_commute [OF assms(2,1,4,3) apart left right] assms(1-4)
    by (simp add: fun_eq_iff replace_entry_replace_all)
qed

lemma fold_replace_entry_permuted:
  assumes "mset r = mset (map swap_entry d)"
    and "\<forall>e \<in> set d. fst e \<noteq> [] \<and> snd e \<noteq> []"
    and "\<forall>e \<in> set d. \<forall>e' \<in> set d. e \<noteq> e' \<longrightarrow> set (snd e) \<inter> set (snd e') = {}"
    and "\<forall>e \<in> set d. \<forall>e' \<in> set d. e \<noteq> e' \<longrightarrow> set (snd e) \<inter> set (fst e') = {}"
  shows "fold replace_entry r = fold replace_entry (rev (map swap_entry d))"
proof (rule fold_multiset_equiv)
  show "mset r = mset (rev (map swap_entry d))" using assms(1) by simp
next
  fix x y
  assume "x \<in> set r" and "y \<in> set r"
  moreover have "set r = swap_entry ` set d"
    using assms(1) by (metis mset_eq_setD set_map)
  ultimately obtain e e' where e: "e \<in> set d" "x = swap_entry e"
    and e': "e' \<in> set d" "y = swap_entry e'"
    by auto
  show "replace_entry x \<circ> replace_entry y = replace_entry y \<circ> replace_entry x"
    unfolding e(2) e'(2)
    using assms(2,3,4) e(1) e'(1) by (intro replace_entry_swap_commute) auto
qed

lemma round_trip_string:
  assumes "mset r = mset (map swap_entry d)" and "distinct d"
    and "\<forall>e \<in> set d. fst e \<noteq> [] \<and> snd e \<noteq> []"
    and "\<forall>e \<in> set d. \<forall>e' \<in> set d. e \<noteq> e' \<longrightarrow> set (snd e) \<inter> set (snd e') = {}"
    and "\<forall>e \<in> set d. \<forall>e' \<in> set d. e \<noteq> e' \<longrightarrow> set (snd e) \<inter> set (fst e') = {}"
    and "\<forall>e \<in> set d. hd (snd e) \<notin> set s"
  shows "apply_entries r (apply_entries d s) = s"
  using fold_replace_entry_permuted [OF assms(1,3,4,5)]
    fold_replace_entry_undo [OF assms(2,3,4,6)]
  by (simp add: apply_entries_fold)

section \<open>The round trip on value trees\<close>

lemma update_absent: "k \<notin> fst ` set obj \<Longrightarrow> AList.update k v obj = obj @ [(k, v)]"
  by (induction obj) auto

lemma update_map_values:
  "AList.update k (h v) (map (apsnd h) obj) = map (apsnd h) (AList.update k v obj)"
  by (induction obj) auto

lemma insert_index_map_values:
  "insert_index k (h v) (map (apsnd h) obj) = map (apsnd h) (insert_index k v obj)"
  by (induction obj) auto

lemma js_set_map_values:
  "js_set (map (apsnd h) obj) k (h v) = map (apsnd h) (js_set obj k v)"
  by (simp add: js_set_def update_map_values insert_index_map_values image_image)

lemma processEntries_fold:
  "processEntries f entries (map (apsnd (processObject f)) acc) =
     map (apsnd (processObject f)) (fold (\<lambda>e obj. js_set obj (fst e) (snd e)) entries acc)"
proof (induction entries arbitrary: acc)
  case Nil
  show ?case by simp
next
  case (Cons e entries)
  obtain k v where e: "e = (k, v)" by (cases e)
  show ?case
    using Cons [of "js_set acc k v"] by (simp add: e js_set_map_values)
qed

lemma processObject_JObject:
  "processObject f (JObject entries) = JObject (map (apsnd (processObject f)) (rebuild entries))"
  using processEntries_fold [of f entries "[]"] by (simp add: rebuild_def)

lemma fold_js_set_map_values:
  "fold (\<lambda>e obj. js_set obj (fst e) (snd e)) (map (apsnd h) entries) (map (apsnd h) acc) =
     map (apsnd h) (fold (\<lambda>e obj. js_set obj (fst e) (snd e)) entries acc)"
proof (induction entries arbitrary: acc)
  case Nil
  show ?case by simp
next
  case (Cons e entries)
  show ?case
    using Cons [of "js_set acc (fst e) (snd e)"] by (simp add: js_set_map_values)
qed

lemma rebuild_map_values: "rebuild (map (apsnd h) entries) = map (apsnd h) (rebuild entries)"
  using fold_js_set_map_values [of h entries "[]"] by (simp add: rebuild_def)

lemma round_trip_tree:
  "plain_objects x \<Longrightarrow> \<forall>s \<in> set (strings_of x). g (f s) = s \<Longrightarrow>
   processObject g (processObject f x) = x"
proof (induction x)
  case (JArray items)
  have "\<forall>y \<in> set items. processObject g (processObject f y) = y"
    using JArray by (auto simp: list_all_iff)
  then show ?case by (simp add: map_idI)
next
  case (JObject entries)
  have same: "rebuild entries = entries" using JObject.prems(1) by simp
  have each: "\<forall>e \<in> set entries. processObject g (processObject f (snd e)) = snd e"
  proof
    fix e assume e: "e \<in> set entries"
    have "snd e \<in> Basic_BNFs.snds e" by (cases e) simp
    moreover have "plain_objects (snd e)" using JObject.prems(1) e by (simp add: list_all_iff)
    moreover have "\<forall>s \<in> set (strings_of (snd e)). g (f s) = s"
      using JObject.prems(2) e by auto
    ultimately show "processObject g (processObject f (snd e)) = snd e"
      using JObject.IH e by blast
  qed
  have "processObject g (processObject f (JObject entries)) =
      JObject (map (apsnd (processObject g)) (map (apsnd (processObject f)) entries))"
    by (simp only: processObject_JObject rebuild_map_values same)
  also have "map (apsnd (processObject g)) (map (apsnd (processObject f)) entries) = entries"
    using each by (simp add: map_idI apsnd_def map_prod_def split_beta)
  finally show ?case .
qed simp_all

lemma no_shared_chars_iff: "no_shared_chars a b \<longleftrightarrow> set a \<inter> set b = {}"
  by (auto simp: no_shared_chars_def list_all_iff)

lemma replacements_apart_pairs:
  "replacements_apart es \<Longrightarrow> e \<in> set es \<Longrightarrow> e' \<in> set es \<Longrightarrow> e \<noteq> e' \<Longrightarrow>
   set (snd e) \<inter> set (snd e') = {}"
proof (induction es)
  case Nil
  then show ?case by simp
next
  case (Cons a es)
  then show ?case
    by (auto simp: list_all_iff no_shared_chars_iff)
qed

lemma replacements_apart_distinct:
  "replacements_apart es \<Longrightarrow> \<forall>e \<in> set es. snd e \<noteq> [] \<Longrightarrow> distinct (map snd es)"
proof (induction es)
  case Nil
  show ?case by simp
next
  case (Cons a es)
  have "snd a \<notin> snd ` set es"
  proof
    assume "snd a \<in> snd ` set es"
    then obtain e' where "e' \<in> set es" "snd e' = snd a" by auto
    then have "set (snd a) \<inter> set (snd a) = {}"
      using Cons.prems(1) by (auto simp: list_all_iff no_shared_chars_iff)
    then show False using Cons.prems(2) by simp
  qed
  with Cons show ?case by simp
qed

lemma mset_js_set:
  "k \<notin> fst ` set d \<Longrightarrow> k \<noteq> ''__proto__'' \<Longrightarrow> mset (js_set d k v) = add_mset (k, v) (mset d)"
  by (simp add: js_set_def mset_insert_index update_absent)

lemma mset_assign_entries:
  "distinct (map fst es) \<Longrightarrow> \<forall>e \<in> set es. storable e \<Longrightarrow> fst ` set es \<inter> fst ` set d = {} \<Longrightarrow>
   mset (assign_entries d es) = mset d + mset es"
proof (induction d es rule: assign_entries.induct)
  case (1 d)
  show ?case by simp
next
  case (2 d key val rest)
  have k: "key \<notin> fst ` set d" "key \<noteq> ''__proto__''"
    using "2.prems"(2,3) by (auto simp: storable_def)
  note m = mset_js_set [OF k, of val]
  have "fst ` set (js_set d key val) = insert key (fst ` set d)"
    using m [THEN arg_cong, of set_mset] by simp
  then have "fst ` set rest \<inter> fst ` set (js_set d key val) = {}"
    using "2.prems"(1,3) by auto
  with 2 have "mset (assign_entries (js_set d key val) rest) = mset (js_set d key val) + mset rest"
    by simp
  then show ?case by (simp add: m)
qed

lemma all_reversible_entries:
  "all_reversible rules \<Longrightarrow> reverse_entries rules = map swap_entry (forward_entries rules)"
proof -
  assume "all_reversible rules"
  then have "filter (\<lambda>r. is_active r \<and> is_res_obfs r) rules = filter is_active rules"
    by (induction rules) (auto simp: all_reversible_def split: if_splits)
  then show ?thesis by (simp add: reverse_entries_def forward_entries_def)
qed

lemma apply_entries_Nil: "\<forall>e \<in> set d. fst e \<noteq> [] \<Longrightarrow> apply_entries d [] = []"
  by (simp add: apply_entries_fold fold_replace_entry_Nil)

text \<open>
  Claim C1, as the code has it. Take a rule list without null elements in which every
  active rule is reversible, the patterns and replacements of the active rules are not
  empty and not \<open>__proto__\<close>, the patterns are pairwise different, and the replacement
  of an entry shares no character with the replacement or the pattern of another entry
  (with its own pattern it may). Take a tree in whose string values the first character
  of no replacement occurs, and whose objects are listed as \<open>Object.entries\<close> lists
  them and have no own key \<open>__proto__\<close> (\<open>plain_objects\<close>). Then de-obfuscating the
  obfuscated tree gives the tree back.
\<close>

theorem C1_round_trip_separated_rules:
  assumes "all_reversible rules"
    and "separated_rules (forward_entries rules)"
    and "first_chars_absent (forward_entries rules) x"
    and "plain_objects x"
  shows "deobfuscateResponseBody (loadReplacements (Parsed (Some (map Some rules))))
           (obfuscateRequestBody (loadReplacements (Parsed (Some (map Some rules)))) x) = x"
proof -
  define E where "E = forward_entries rules"
  define F where "F = assign_entries [] E"
  define R where "R = assign_entries [] (map swap_entry E)"
  define st where "st = loadReplacements (Parsed (Some (map Some rules)))"
  have st: "requestReplacements st = F" "responseReplacements st = R"
    by (simp_all add: st_def loadReplacements_entries all_reversible_entries [OF assms(1)]
        F_def R_def E_def)
  have fresh: "separated_rules E" using assms(2) by (simp add: E_def)
  have each: "list_all (\<lambda>e. fst e \<noteq> [] \<and> snd e \<noteq> [] \<and> storable e \<and> storable (swap_entry e)) E"
    and dist: "distinct (map fst E)"
    and apart: "replacements_apart E"
    and others: "list_all (\<lambda>e. list_all (\<lambda>e'. e' = e \<or> no_shared_chars (snd e) (fst e')) E) E"
    using fresh by (simp_all add: separated_rules_def)
  have nonempty: "\<forall>e \<in> set E. fst e \<noteq> [] \<and> snd e \<noteq> []"
    and stor: "\<forall>e \<in> set E. storable e" "\<forall>e \<in> set E. storable (swap_entry e)"
    using each by (simp_all add: list_all_iff)
  have pats: "\<forall>e \<in> set E. \<forall>e' \<in> set E. e \<noteq> e' \<longrightarrow> set (snd e) \<inter> set (fst e') = {}"
  proof (intro ballI impI)
    fix e e' assume e: "e \<in> set E" and e': "e' \<in> set E" and differ: "e \<noteq> e'"
    have pair: "\<And>a b. a \<in> set E \<Longrightarrow> b \<in> set E \<Longrightarrow> b = a \<or> no_shared_chars (snd a) (fst b)"
      using others by (simp add: list_all_iff)
    from pair [OF e e'] differ show "set (snd e) \<inter> set (fst e') = {}"
      by (auto simp: no_shared_chars_iff)
  qed
  have mF: "mset F = mset E"
    using mset_assign_entries [of E "[]"] dist stor(1) by (simp add: F_def)
  have "distinct (map fst (map swap_entry E))"
    using replacements_apart_distinct [OF apart] nonempty by (simp add: comp_def)
  then have mR: "mset R = mset (map swap_entry E)"
    using mset_assign_entries [of "map swap_entry E" "[]"] stor(2) by (simp add: R_def)
  have setF: "set F = set E" using mF by (rule mset_eq_setD)
  have mRF: "mset R = mset (map swap_entry F)"
    using mR mF by (metis mset_map)
  have dF: "distinct F"
    using distinct_assign_entries [of "[]" E] by (auto simp: F_def distinct_map)
  have nF: "\<forall>e \<in> set F. fst e \<noteq> [] \<and> snd e \<noteq> []" using nonempty setF by simp
  have aF: "\<forall>e \<in> set F. \<forall>e' \<in> set F. e \<noteq> e' \<longrightarrow> set (snd e) \<inter> set (snd e') = {}"
    using replacements_apart_pairs [OF apart] setF by blast
  have pF: "\<forall>e \<in> set F. \<forall>e' \<in> set F. e \<noteq> e' \<longrightarrow> set (snd e) \<inter> set (fst e') = {}"
    using pats setF by simp
  have nR: "\<forall>e \<in> set R. fst e \<noteq> []"
  proof -
    have "set R = swap_entry ` set E" using mR by (metis mset_eq_setD set_map)
    then show ?thesis using nonempty by auto
  qed
  show ?thesis
  proof (cases "E = []")
    case True
    then have "F = []" "R = []" by (simp_all add: F_def R_def)
    then show ?thesis
      using st by (simp add: st_def [symmetric] obfuscateRequestBody_def deobfuscateResponseBody_def keys_def)
  next
    case False
    then have "F \<noteq> []" "R \<noteq> []" using mF mR by auto
    then have ob: "obfuscateRequestBody st x = processObject (obfuscateString st) x"
      and de: "\<And>y. deobfuscateResponseBody st y = processObject (deobfuscateString st) y"
      using st by (simp_all add: obfuscateRequestBody_def deobfuscateResponseBody_def keys_def)
    have kF: "\<forall>e \<in> set F. fst e \<noteq> []" using nF by simp
    have f: "obfuscateString st = apply_entries F"
      using apply_entries_Nil [OF kF] st by (auto simp: obfuscateString_def fun_eq_iff)
    have g: "deobfuscateString st = apply_entries R"
      using apply_entries_Nil [OF nR] st by (auto simp: deobfuscateString_def fun_eq_iff)
    have "\<forall>s \<in> set (strings_of x). apply_entries R (apply_entries F s) = s"
    proof
      fix s assume "s \<in> set (strings_of x)"
      moreover have "list_all (\<lambda>s. list_all (\<lambda>e. hd (snd e) \<notin> set s) E) (strings_of x)"
        using assms(3) by (simp add: first_chars_absent_def E_def)
      ultimately have "\<forall>e \<in> set F. hd (snd e) \<notin> set s"
        unfolding list_all_iff setF by blast
      then show "apply_entries R (apply_entries F s) = s"
        by (rule round_trip_string [OF mRF dF nF aF pF])
    qed
    then have "processObject (apply_entries R) (processObject (apply_entries F) x) = x"
      by (rule round_trip_tree [OF assms(4)])
    then show ?thesis by (simp add: st_def [symmetric] ob de f g)
  qed
qed

text \<open>
  Instances. Two reversible rules with marker replacements and one inactive rule, on a
  body with an array index key, nested values and repeated patterns. The rule
  \<open>secret_key \<rightarrow> public_key\<close>, whose replacement shares characters with its own pattern,
  on the body \<open>{"text": "This is a secret_key"}\<close>. The rule \<open>cat \<rightarrow> DOG\<close> on
  \<open>["my cat is OK", true]\<close>, where the text holds the \<open>O\<close> of the replacement but not
  its first character.
\<close>

theorem C1_round_trip_witness:
  "all_reversible marker_rules \<and>
   separated_rules (forward_entries marker_rules) \<and>
   first_chars_absent (forward_entries marker_rules) marker_body \<and>
   plain_objects marker_body \<and>
   obfuscateRequestBody (loadReplacements (Parsed (Some (map Some marker_rules)))) marker_body =
     JObject [(''0'', JString ''a #1''),
              (''msg'', JArray [JString ''%2 #1s'', JNumber 5, JNull,
                                JObject [(''k'', JString ''#1#1'')]])] \<and>
   deobfuscateResponseBody (loadReplacements (Parsed (Some (map Some marker_rules))))
     (obfuscateRequestBody (loadReplacements (Parsed (Some (map Some marker_rules)))) marker_body) =
     marker_body \<and>
   all_reversible readme_rules \<and>
   separated_rules (forward_entries readme_rules) \<and>
   first_chars_absent (forward_entries readme_rules) readme_body \<and>
   plain_objects readme_body \<and>
   obfuscateRequestBody (loadReplacements (Parsed (Some (map Some readme_rules)))) readme_body =
     JObject [(''text'', JString ''This is a public_key'')] \<and>
   deobfuscateResponseBody (loadReplacements (Parsed (Some (map Some readme_rules))))
     (obfuscateRequestBody (loadReplacements (Parsed (Some (map Some readme_rules)))) readme_body) =
     readme_body \<and>
   all_reversible cat_rules \<and>
   separated_rules (forward_entries cat_rules) \<and>
   first_chars_absent (forward_entries cat_rules) cat_body \<and>
   plain_objects cat_body \<and>
   obfuscateRequestBody (loadReplacements (Parsed (Some (map Some cat_rules)))) cat_body =
     JArray [JString ''my DOG is OK'', JBool True] \<and>
   deobfuscateResponseBody (loadReplacements (Parsed (Some (map Some cat_rules))))
     (obfuscateRequestBody (loadReplacements (Parsed (Some (map Some cat_rules)))) cat_body) =
     cat_body"
proof -
  have h1: "all_reversible marker_rules" by code_simp
  have h2: "separated_rules (forward_entries marker_rules)" by code_simp
  have h3: "first_chars_absent (forward_entries marker_rules) marker_body" by code_simp
  have h4: "plain_objects marker_body" by code_simp
  have ob: "obfuscateRequestBody (loadReplacements (Parsed (Some (map Some marker_rules))))
      marker_body =
     JObject [(''0'', JString ''a #1''),
              (''msg'', JArray [JString ''%2 #1s'', JNumber 5, JNull,
                                JObject [(''k'', JString ''#1#1'')]])]"
    by code_simp
  have r1: "all_reversible readme_rules" by code_simp
  have r2: "separated_rules (forward_entries readme_rules)" by code_simp
  have r3: "first_chars_absent (forward_entries readme_rules) readme_body" by code_simp
  have r4: "plain_objects readme_body" by code_simp
  have rob: "obfuscateRequestBody (loadReplacements (Parsed (Some (map Some readme_rules))))
      readme_body = JObject [(''text'', JString ''This is a public_key'')]"
    by code_simp
  have c1: "all_reversible cat_rules" by code_simp
  have c2: "separated_rules (forward_entries cat_rules)" by code_simp
  have c3: "first_chars_absent (forward_entries cat_rules) cat_body" by code_simp
  have c4: "plain_objects cat_body" by code_simp
  have cob: "obfuscateRequestBody (loadReplacements (Parsed (Some (map Some cat_rules))))
      cat_body = JArray [JString ''my DOG is OK'', JBool True]"
    by code_simp
  note marker = C1_round_trip_separated_rules [OF h1 h2 h3 h4]
  note readme = C1_round_trip_separated_rules [OF r1 r2 r3 r4]
  note cat = C1_round_trip_separated_rules [OF c1 c2 c3 c4]
  show ?thesis
    by (intro conjI h1 h2 h3 h4 ob marker r1 r2 r3 r4 rob readme c1 c2 c3 c4 cob cat)
qed

text \<open>
  Claim C1 as the specification words it fails, in four ways, each within its
  conditions. A replacement that overlaps the text beside it: the rule \<open>x \<rightarrow> aa\<close> takes
  \<open>ax\<close> to \<open>aaa\<close>, which comes back as \<open>xa\<close>. A rule without \<open>res-obfs\<close>: \<open>a \<rightarrow> b\<close> takes
  \<open>a\<close> to \<open>b\<close>, which stays \<open>b\<close>. A replacement that completes a later pattern: the rules
  \<open>ab \<rightarrow> c\<close> and \<open>cd \<rightarrow> z\<close> take \<open>abd\<close> to \<open>z\<close>, which comes back as \<open>cd\<close>. A replacement
  that ends with another replacement: the rules \<open>a \<rightarrow> y\<close> and \<open>b \<rightarrow> xy\<close> take \<open>b\<close> to \<open>xy\<close>,
  which comes back as \<open>xa\<close>.
\<close>

theorem C1_round_trip_counterexample:
  "claimed_rule_condition (forward_entries overlap_rules) \<and>
   claimed_input_condition (forward_entries overlap_rules) (JString ''ax'') \<and>
   all_reversible overlap_rules \<and>
   deobfuscateResponseBody (loadReplacements (Parsed (Some (map Some overlap_rules))))
     (obfuscateRequestBody (loadReplacements (Parsed (Some (map Some overlap_rules))))
        (JString ''ax'')) = JString ''xa'' \<and>
   claimed_rule_condition (forward_entries one_way_rules) \<and>
   claimed_input_condition (forward_entries one_way_rules) (JString ''a'') \<and>
   deobfuscateResponseBody (loadReplacements (Parsed (Some (map Some one_way_rules))))
     (obfuscateRequestBody (loadReplacements (Parsed (Some (map Some one_way_rules))))
        (JString ''a'')) = JString ''b'' \<and>
   claimed_rule_condition (forward_entries joining_rules) \<and>
   claimed_input_condition (forward_entries joining_rules) (JString ''abd'') \<and>
   all_reversible joining_rules \<and>
   deobfuscateResponseBody (loadReplacements (Parsed (Some (map Some joining_rules))))
     (obfuscateRequestBody (loadReplacements (Parsed (Some (map Some joining_rules))))
        (JString ''abd'')) = JString ''cd'' \<and>
   claimed_rule_condition (forward_entries nested_replacement_rules) \<and>
   claimed_input_condition (forward_entries nested_replacement_rules) (JString ''b'') \<and>
   all_reversible nested_replacement_rules \<and>
   deobfuscateResponseBody (loadReplacements (Parsed (Some (map Some nested_replacement_rules))))
     (obfuscateRequestBody (loadReplacements (Parsed (Some (map Some nested_replacement_rules))))
        (JString ''b'')) = JString ''xa''"
  by code_simp

section \<open>The tree traversal\<close>

lemma keys_in_property_order_front:
  "keys_in_property_order (ks @ [k]) \<Longrightarrow> keys_in_property_order ks"
  by (induction ks rule: keys_in_property_order.induct) simp_all

lemma keys_before_index:
  "keys_in_property_order (ks @ [k]) \<Longrightarrow> is_array_index k \<Longrightarrow>
   \<forall>k' \<in> set ks. is_array_index k' \<and> num_val k' < num_val k"
  by (induction ks rule: keys_in_property_order.induct) (auto split: if_splits)

lemma insert_index_last:
  "\<forall>e \<in> set obj. is_array_index (fst e) \<and> num_val (fst e) < num_val k \<Longrightarrow>
   insert_index k v obj = obj @ [(k, v)]"
  by (induction obj) auto

lemma entries_as_listed_rebuild: "entries_as_listed entries \<Longrightarrow> rebuild entries = entries"
proof (induction entries rule: rev_induct)
  case Nil
  show ?case by (simp add: rebuild_def)
next
  case (snoc e es)
  obtain k v where e: "e = (k, v)" by (cases e)
  have order: "keys_in_property_order (map fst es @ [k])"
    and new: "k \<notin> fst ` set es" and named: "k \<noteq> ''__proto__''"
    using snoc.prems by (auto simp: entries_as_listed_def e)
  have "entries_as_listed es"
    using snoc.prems keys_in_property_order_front [OF order]
    by (simp add: entries_as_listed_def)
  then have before: "rebuild es = es" by (rule snoc.IH)
  have "js_set es k v = es @ [(k, v)]"
  proof (cases "is_array_index k")
    case True
    have "\<forall>e \<in> set es. is_array_index (fst e) \<and> num_val (fst e) < num_val k"
      using keys_before_index [OF order True] by simp
    then show ?thesis
      using True new named by (simp add: js_set_def insert_index_last)
  next
    case False
    then show ?thesis
      using new named by (simp add: js_set_def update_absent)
  qed
  then show ?case
    using before by (simp add: rebuild_def e)
qed

lemma well_listed_plain_objects: "well_listed x \<Longrightarrow> plain_objects x"
proof (induction x)
  case (JArray items)
  then show ?case by (auto simp: list_all_iff)
next
  case (JObject entries)
  have "rebuild entries = entries"
    using JObject.prems by (simp add: entries_as_listed_rebuild)
  moreover have "\<forall>e \<in> set entries. plain_objects (snd e)"
  proof
    fix e assume e: "e \<in> set entries"
    have "snd e \<in> Basic_BNFs.snds e" by (cases e) simp
    moreover have "well_listed (snd e)" using JObject.prems e by (simp add: list_all_iff)
    ultimately show "plain_objects (snd e)" using JObject.IH e by blast
  qed
  ultimately show ?case by (simp add: list_all_iff)
qed simp_all

lemma processObject_rewrite_strings:
  "plain_objects x \<Longrightarrow> processObject f x = rewrite_strings f x"
proof (induction x)
  case (JArray items)
  have "\<forall>y \<in> set items. processObject f y = rewrite_strings f y"
    using JArray by (auto simp: list_all_iff)
  then show ?case by simp
next
  case (JObject entries)
  have same: "rebuild entries = entries" using JObject.prems by simp
  have each: "\<forall>e \<in> set entries. processObject f (snd e) = rewrite_strings f (snd e)"
  proof
    fix e assume e: "e \<in> set entries"
    have "snd e \<in> Basic_BNFs.snds e" by (cases e) simp
    moreover have "plain_objects (snd e)" using JObject.prems e by (simp add: list_all_iff)
    ultimately show "processObject f (snd e) = rewrite_strings f (snd e)"
      using JObject.IH e by blast
  qed
  have "processObject f (JObject entries) = JObject (map (apsnd (processObject f)) entries)"
    by (simp only: processObject_JObject same)
  also have "map (apsnd (processObject f)) entries =
      map (\<lambda>e. (fst e, rewrite_strings f (snd e))) entries"
    using each by (simp add: apsnd_def map_prod_def split_beta)
  finally show ?case by simp
qed simp_all

text \<open>
  Claim C9. On every tree whose objects are listed as \<open>Object.entries\<close> lists them and
  have no own key \<open>__proto__\<close> (\<open>well_listed\<close>; the rebuilding loop gives such objects back
  entry by entry, which is \<open>plain_objects\<close>), \<open>processObject\<close> is the traversal the
  specification describes, for every transform function: strings at every depth are
  rewritten, null, numbers, booleans and undefined pass through, and the order of the
  array items and of the keys is kept; so are both entry points when their dictionary
  is not empty. With the single rule \<open>x \<rightarrow> y\<close> loaded, \<open>obfuscateRequestBody\<close> maps the
  fixture \<open>{"a":["x",{"b":"x"}],"c":null,"d":5}\<close> to \<open>{"a":["y",{"b":"y"}],"c":null,"d":5}\<close>.
  On a body with an own key \<open>__proto__\<close> the code departs from the description: the
  assignment \<open>result[key] = ...\<close> stores nothing for that key, so the entry and the
  string under it are missing from the result.
\<close>

theorem C9_tree_traversal:
  "(well_listed x \<longrightarrow> plain_objects x) \<and>
   (plain_objects x \<longrightarrow>
      processObject transformFn x = rewrite_strings transformFn x \<and>
      obfuscateRequestBody st x =
        (if requestReplacements st = [] then x else rewrite_strings (obfuscateString st) x) \<and>
      deobfuscateResponseBody st x =
        (if responseReplacements st = [] then x else rewrite_strings (deobfuscateString st) x)) \<and>
   obfuscateRequestBody (loadReplacements rule_x_y) fixture_body =
     JObject [(''a'', JArray [JString ''y'', JObject [(''b'', JString ''y'')]]),
              (''c'', JNull), (''d'', JNumber 5)] \<and>
   rewrite_strings (obfuscateString (loadReplacements rule_x_y)) proto_body =
     JObject [(''__proto__'', JString ''y''), (''k'', JString ''y'')] \<and>
   obfuscateRequestBody (loadReplacements rule_x_y) proto_body = JObject [(''k'', JString ''y'')]"
proof (intro conjI impI)
  assume "well_listed x"
  then show "plain_objects x" by (rule well_listed_plain_objects)
next
  assume plain: "plain_objects x"
  show "processObject transformFn x = rewrite_strings transformFn x"
    by (rule processObject_rewrite_strings [OF plain])
  show "obfuscateRequestBody st x =
        (if requestReplacements st = [] then x else rewrite_strings (obfuscateString st) x)"
    by (simp add: obfuscateRequestBody_def keys_def processObject_rewrite_strings [OF plain])
  show "deobfuscateResponseBody st x =
        (if responseReplacements st = [] then x else rewrite_strings (deobfuscateString st) x)"
    by (simp add: deobfuscateResponseBody_def keys_def processObject_rewrite_strings [OF plain])
next
  show "obfuscateRequestBody (loadReplacements rule_x_y) fixture_body =
     JObject [(''a'', JArray [JString ''y'', JObject [(''b'', JString ''y'')]]),
              (''c'', JNull), (''d'', JNumber 5)]"
    by code_simp
next
  show "rewrite_strings (obfuscateString (loadReplacements rule_x_y)) proto_body =
     JObject [(''__proto__'', JString ''y''), (''k'', JString ''y'')]"
    by code_simp
next
  show "obfuscateRequestBody (loadReplacements rule_x_y) proto_body = JObject [(''k'', JString ''y'')]"
    by code_simp
qed

text \<open>
  An instance: with the rule \<open>x \<rightarrow> y\<close> loaded, a body with booleans, array index keys,
  an empty array and strings at three depths comes out with every string rewritten and
  everything else in place.
\<close>

theorem C9_tree_traversal_witness:
  "well_listed mixed_body \<and>
   plain_objects mixed_body \<and>
   requestReplacements (loadReplacements rule_x_y) \<noteq> [] \<and>
   obfuscateRequestBody (loadReplacements rule_x_y) mixed_body =
     rewrite_strings (obfuscateString (loadReplacements rule_x_y)) mixed_body \<and>
   obfuscateRequestBody (loadReplacements rule_x_y) mixed_body =
     JObject [(''0'', JBool True), (''7'', JString ''y''),
              (''z'', JArray [JString ''yay'', JBool False, JNull, JNumber 5,
                              JObject [(''b'', JString ''y''), (''a'', JArray [])]]),
              (''m'', JString ''no match'')]"
proof -
  have listed: "well_listed mixed_body" by code_simp
  note whole = C9_tree_traversal [of mixed_body "obfuscateString (loadReplacements rule_x_y)"
      "loadReplacements rule_x_y"]
  have plain: "plain_objects mixed_body"
    by (rule whole [THEN conjunct1, THEN mp, OF listed])
  have loaded: "requestReplacements (loadReplacements rule_x_y) \<noteq> []" by code_simp
  have out: "rewrite_strings (obfuscateString (loadReplacements rule_x_y)) mixed_body =
     JObject [(''0'', JBool True), (''7'', JString ''y''),
              (''z'', JArray [JString ''yay'', JBool False, JNull, JNumber 5,
                              JObject [(''b'', JString ''y''), (''a'', JArray [])]]),
              (''m'', JString ''no match'')]"
    by code_simp
  note inst = whole [THEN conjunct2, THEN conjunct1, THEN mp, OF plain,
      THEN conjunct2, THEN conjunct1]
  have same: "obfuscateRequestBody (loadReplacements rule_x_y) mixed_body =
     rewrite_strings (obfuscateString (loadReplacements rule_x_y)) mixed_body"
    using inst loaded by simp
  show ?thesis
    using listed plain loaded same out by simp
qed

end
